theory Spec2Isabelle
  imports Main "HOL-Library.AList"
begin

section \<open>Strings and arrays as the TypeScript sources use them\<close>

text \<open>
  Strings are lists of 8-bit characters: the model covers text whose UTF-16 code units
  are below 256 (Git's plumbing output for ASCII paths). A \<^verbatim>\<open>number\<close> that holds a
  count is an \<open>int\<close> (exact in the sources below \<open>2^53\<close>); where the sources can produce
  \<^verbatim>\<open>NaN\<close> the model says so with an \<open>option\<close>.
\<close>

abbreviation (input) NL :: char where "NL \<equiv> CHR 0x0A"
abbreviation (input) CR :: char where "CR \<equiv> CHR 0x0D"
abbreviation (input) DQ :: char where "DQ \<equiv> CHR 0x22"
abbreviation (input) BS :: char where "BS \<equiv> CHR 0x5C"

text \<open>\<^verbatim>\<open>Array.prototype.join(sep)\<close>.\<close>

fun join :: "string \<Rightarrow> string list \<Rightarrow> string" where
  "join sep [] = []"
| "join sep [x] = x"
| "join sep (x # y # ys) = x @ sep @ join sep (y # ys)"

text \<open>
  \<^verbatim>\<open>xs[i]\<close> on an array: \<^verbatim>\<open>undefined\<close> (here \<open>None\<close>) when \<open>i\<close> is out of range,
  which includes the index \<open>-1\<close> that \<^verbatim>\<open>xs[xs.length - 1]\<close> reads on an empty array.
\<close>

definition at :: "'a list \<Rightarrow> int \<Rightarrow> 'a option" where
  "at xs i = (if 0 \<le> i \<and> i < int (length xs) then Some (xs ! nat i) else None)"

text \<open>
  Optional chaining \<^verbatim>\<open>x?.f\<close> where the field \<^verbatim>\<open>f\<close> is itself optional: \<^verbatim>\<open>undefined\<close>
  when \<^verbatim>\<open>x\<close> is, the field otherwise.
\<close>

definition optChain :: "'a option \<Rightarrow> ('a \<Rightarrow> 'b option) \<Rightarrow> 'b option" where
  "optChain x f = (case x of None \<Rightarrow> None | Some v \<Rightarrow> f v)"

text \<open>
  A JavaScript \<^verbatim>\<open>Set\<close> keeps its members in the order of their first insertion;
  \<^verbatim>\<open>Array.from\<close> reads them back in that order.
\<close>

definition setAdd :: "string list \<Rightarrow> string \<Rightarrow> string list" where
  "setAdd s f = (if f \<in> set s then s else s @ [f])"

section \<open>gitDiffManager.ts: the data model\<close>

record GitDiffStats =
  additions :: int
  deletions :: int
  filesChanged :: int

record GitDiffResult =
  diff :: string
  stats :: GitDiffStats
  changedFiles :: "string list"
  beforeHash :: "string option"
  afterHash :: "string option"

subsection \<open>combineDiffs\<close>

definition combineDiffs :: "GitDiffResult list \<Rightarrow> GitDiffResult" where
  "combineDiffs diffs =
     (let combinedDiff = join [NL, NL] (map diff diffs);
          stats0 = \<lparr> additions = foldl (\<lambda>sum d. sum + additions (stats d)) 0 diffs,
                     deletions = foldl (\<lambda>sum d. sum + deletions (stats d)) 0 diffs,
                     filesChanged = 0 \<rparr>;
          allFiles = foldl (\<lambda>s d. foldl setAdd s (changedFiles d)) [] diffs;
          changedFiles' = allFiles;
          stats1 = stats0 \<lparr> filesChanged := int (length changedFiles') \<rparr>
      in \<lparr> diff = combinedDiff,
           stats = stats1,
           changedFiles = changedFiles',
           beforeHash = optChain (at diffs 0) beforeHash,
           afterHash = optChain (at diffs (int (length diffs) - 1)) afterHash \<rparr>)"

section \<open>JavaScript strings\<close>

text \<open>
  Abnormal outcomes of evaluating the TypeScript: a thrown \<^verbatim>\<open>Error\<close> with its message, a
  thrown \<^verbatim>\<open>TypeError\<close> (reading a property of \<^verbatim>\<open>undefined\<close> or \<^verbatim>\<open>null\<close>), a thrown value
  that is no \<^verbatim>\<open>Error\<close> instance, and \<open>NotANumber\<close>: a \<^verbatim>\<open>NaN\<close> about to be stored where
  the data model has an integer count.
\<close>

datatype js_error = Error string | TypeError string | NonError | NotANumber

definition bindE :: "js_error + 'a \<Rightarrow> ('a \<Rightarrow> js_error + 'b) \<Rightarrow> js_error + 'b" where
  "bindE x f = (case x of Inl e \<Rightarrow> Inl e | Inr v \<Rightarrow> f v)"

text \<open>
  White space as \<^verbatim>\<open>String.prototype.trim\<close> and the regular expression \<^verbatim>\<open>\s\<close> see it: of
  the code units below 256, the tab, the line feed, the vertical tab, the form feed, the
  carriage return, the space and the no-break space U+00A0.
\<close>

definition isSpace :: "char \<Rightarrow> bool" where
  "isSpace c = (c = CHR 0x09 \<or> c = NL \<or> c = CHR 0x0B \<or> c = CHR 0x0C \<or> c = CR \<or> c = CHR '' ''
     \<or> c = CHR 0xA0)"

definition isDigit :: "char \<Rightarrow> bool" where
  "isDigit c = (c = CHR ''0'' \<or> c = CHR ''1'' \<or> c = CHR ''2'' \<or> c = CHR ''3'' \<or> c = CHR ''4''
     \<or> c = CHR ''5'' \<or> c = CHR ''6'' \<or> c = CHR ''7'' \<or> c = CHR ''8'' \<or> c = CHR ''9'')"

definition digitVal :: "char \<Rightarrow> int" where
  "digitVal c = (if isDigit c then int (of_char c) - int (of_char CHR ''0'') else 0)"

definition trim :: "string \<Rightarrow> string" where
  "trim s = dropWhile isSpace (rev (dropWhile isSpace (rev s)))"

text \<open>\<^verbatim>\<open>s.split(c)\<close> for a one-character separator: never the empty array.\<close>

fun split :: "char \<Rightarrow> string \<Rightarrow> string list" where
  "split c [] = [[]]"
| "split c (x # xs) =
     (if x = c then [] # split c xs
      else (case split c xs of l # ls \<Rightarrow> (x # l) # ls))"

fun startsWith :: "string \<Rightarrow> string \<Rightarrow> bool" where
  "startsWith s [] = True"
| "startsWith [] (p # ps) = False"
| "startsWith (x # xs) (p # ps) = (x = p \<and> startsWith xs ps)"

text \<open>\<^verbatim>\<open>s.includes(p)\<close>.\<close>

fun includes_str :: "string \<Rightarrow> string \<Rightarrow> bool" where
  "includes_str [] p = (p = [])"
| "includes_str (x # xs) p = (startsWith (x # xs) p \<or> includes_str xs p)"

text \<open>
  \<^verbatim>\<open>parseInt(s)\<close> and \<^verbatim>\<open>parseInt(s, 10)\<close>: leading white space is skipped, a sign is read,
  then the longest run of digits; \<^verbatim>\<open>NaN\<close>, here \<open>None\<close>, when there is no digit. With no
  radix given, a \<^verbatim>\<open>0x\<close> or \<^verbatim>\<open>0X\<close> prefix selects base sixteen.
\<close>

definition decimal :: "string \<Rightarrow> int" where
  "decimal ds = foldl (\<lambda>n c. 10 * n + digitVal c) 0 ds"

definition isHexDigit :: "char \<Rightarrow> bool" where
  "isHexDigit c = (isDigit c \<or> c \<in> set ''abcdefABCDEF'')"

definition hexVal :: "char \<Rightarrow> int" where
  "hexVal c = (if c = CHR ''a'' \<or> c = CHR ''A'' then 10 else if c = CHR ''b'' \<or> c = CHR ''B'' then 11
     else if c = CHR ''c'' \<or> c = CHR ''C'' then 12 else if c = CHR ''d'' \<or> c = CHR ''D'' then 13
     else if c = CHR ''e'' \<or> c = CHR ''E'' then 14 else if c = CHR ''f'' \<or> c = CHR ''F'' then 15
     else digitVal c)"

definition hexadecimal :: "string \<Rightarrow> int" where
  "hexadecimal ds = foldl (\<lambda>n c. 16 * n + hexVal c) 0 ds"

definition parseInt10 :: "string \<Rightarrow> int option" where
  "parseInt10 s =
     (let t = dropWhile isSpace s;
          negative = startsWith t ''-'';
          u = (if negative \<or> startsWith t ''+'' then drop 1 t else t);
          ds = takeWhile isDigit u
      in if ds = [] then None else Some (if negative then - decimal ds else decimal ds))"

definition parseInt :: "string \<Rightarrow> int option" where
  "parseInt s =
     (let t = dropWhile isSpace s;
          negative = startsWith t ''-'';
          u = (if negative \<or> startsWith t ''+'' then drop 1 t else t)
      in if startsWith u ''0x'' \<or> startsWith u ''0X''
         then (let hs = takeWhile isHexDigit (drop 2 u)
               in if hs = [] then None
                  else Some (if negative then - hexadecimal hs else hexadecimal hs))
         else (let ds = takeWhile isDigit u
               in if ds = [] then None
                  else Some (if negative then - decimal ds else decimal ds)))"

definition toCount :: "int option \<Rightarrow> js_error + int" where
  "toCount n = (case n of None \<Rightarrow> Inl NotANumber | Some i \<Rightarrow> Inr i)"

section \<open>Regular expressions, as backtracking matchers\<close>

text \<open>
  A matcher takes the rest of the input and a continuation for what follows it in the
  pattern; \<open>None\<close> makes the caller backtrack. Alternatives are tried in the order of
  the ECMAScript semantics: a greedy quantifier takes one more character before it tries
  the continuation, a lazy one tries the continuation first.
\<close>

definition lit :: "string \<Rightarrow> (string \<Rightarrow> 'r option) \<Rightarrow> string \<Rightarrow> 'r option" where
  "lit l k s = (if startsWith s l then k (drop (length l) s) else None)"

definition alt :: "(string \<Rightarrow> 'r option) \<Rightarrow> (string \<Rightarrow> 'r option) \<Rightarrow> string \<Rightarrow> 'r option" where
  "alt a b s = (case a s of Some r \<Rightarrow> Some r | None \<Rightarrow> b s)"

text \<open>\<^verbatim>\<open>l?\<close> for a literal \<open>l\<close> (greedy).\<close>

definition optLit :: "string \<Rightarrow> (string \<Rightarrow> 'r option) \<Rightarrow> string \<Rightarrow> 'r option" where
  "optLit l k = alt (lit l k) k"

text \<open>
  A capturing group over one quantified character class, \<^verbatim>\<open>(c*)\<close> and \<^verbatim>\<open>(c*?)\<close>: \<open>acc\<close>
  holds the characters taken so far, last first; the continuation gets the captured text.
\<close>

fun greedyStarC :: "(char \<Rightarrow> bool) \<Rightarrow> string \<Rightarrow> (string \<Rightarrow> string \<Rightarrow> 'r option) \<Rightarrow> string \<Rightarrow> 'r option" where
  "greedyStarC p acc k [] = k (rev acc) []"
| "greedyStarC p acc k (c # cs) =
     (case (if p c then greedyStarC p (c # acc) k cs else None) of
        Some r \<Rightarrow> Some r
      | None \<Rightarrow> k (rev acc) (c # cs))"

fun lazyStarC :: "(char \<Rightarrow> bool) \<Rightarrow> string \<Rightarrow> (string \<Rightarrow> string \<Rightarrow> 'r option) \<Rightarrow> string \<Rightarrow> 'r option" where
  "lazyStarC p acc k [] = k (rev acc) []"
| "lazyStarC p acc k (c # cs) =
     (case k (rev acc) (c # cs) of
        Some r \<Rightarrow> Some r
      | None \<Rightarrow> if p c then lazyStarC p (c # acc) k cs else None)"

text \<open>\<^verbatim>\<open>(c+)\<close> and \<^verbatim>\<open>(c+?)\<close>: one character of the class, then the starred group.\<close>

definition greedyPlusC :: "(char \<Rightarrow> bool) \<Rightarrow> (string \<Rightarrow> string \<Rightarrow> 'r option) \<Rightarrow> string \<Rightarrow> 'r option" where
  "greedyPlusC p k s = (case s of [] \<Rightarrow> None | c # cs \<Rightarrow> if p c then greedyStarC p [c] k cs else None)"

definition lazyPlusC :: "(char \<Rightarrow> bool) \<Rightarrow> (string \<Rightarrow> string \<Rightarrow> 'r option) \<Rightarrow> string \<Rightarrow> 'r option" where
  "lazyPlusC p k s = (case s of [] \<Rightarrow> None | c # cs \<Rightarrow> if p c then lazyStarC p [c] k cs else None)"

text \<open>
  \<^verbatim>\<open>s.match(re)\<close> for a pattern with no anchor and no \<^verbatim>\<open>g\<close> flag: the match attempt at the
  leftmost position that succeeds, the end of the input included.
\<close>

fun search :: "(string \<Rightarrow> 'r option) \<Rightarrow> string \<Rightarrow> 'r option" where
  "search m [] = m []"
| "search m (c # cs) = (case m (c # cs) of Some r \<Rightarrow> Some r | None \<Rightarrow> search m cs)"

subsection \<open>parseDiffStats\<close>

text \<open>
  The three patterns of parseDiffStats; each returns the text of its group 1.
  \<^verbatim>\<open>/(\d+) files? changed/\<close>, \<^verbatim>\<open>/(\d+) insertions?\(\+\)/\<close>, \<^verbatim>\<open>/(\d+) deletions?\(-\)/\<close>.
\<close>

definition reFilesChanged :: "string \<Rightarrow> string option" where
  "reFilesChanged =
     search (greedyPlusC isDigit (\<lambda>g. lit '' file'' (optLit ''s'' (lit '' changed'' (\<lambda>r. Some g)))))"

definition reInsertions :: "string \<Rightarrow> string option" where
  "reInsertions =
     search (greedyPlusC isDigit (\<lambda>g. lit '' insertion'' (optLit ''s'' (lit ''(+)'' (\<lambda>r. Some g)))))"

definition reDeletions :: "string \<Rightarrow> string option" where
  "reDeletions =
     search (greedyPlusC isDigit (\<lambda>g. lit '' deletion'' (optLit ''s'' (lit ''(-)'' (\<lambda>r. Some g)))))"

text \<open>\<^verbatim>\<open>m ? parseInt(m[1]) : 0\<close> for a match result \<open>m\<close>.\<close>

definition groupOrZero :: "string option \<Rightarrow> js_error + int" where
  "groupOrZero m = (case m of Some g \<Rightarrow> toCount (parseInt g) | None \<Rightarrow> Inr 0)"

definition parseDiffStats :: "string \<Rightarrow> js_error + GitDiffStats" where
  "parseDiffStats statsOutput =
     (let lines = split NL (trim statsOutput)
      in case at lines (int (length lines) - 1) of
           None \<Rightarrow> Inl (TypeError ''summaryLine is undefined'')
         | Some summaryLine \<Rightarrow>
             (let fileMatch = reFilesChanged summaryLine;
                  addMatch = reInsertions summaryLine;
                  delMatch = reDeletions summaryLine
              in bindE (groupOrZero fileMatch) (\<lambda>fc.
                 bindE (groupOrZero addMatch) (\<lambda>a.
                 bindE (groupOrZero delMatch) (\<lambda>d.
                 Inr \<lparr> additions = a, deletions = d, filesChanged = fc \<rparr>)))))"

subsection \<open>parseStatSummary as the specification words it\<close>

text \<open>
  The specification's wording of the same function, written with none of the functions of
  the sources' model so that the two can be compared: take the last non-empty line, extract
  up to three optional integer groups (files changed, insertions, deletions), an absent
  group counting 0.

  The lines of a text are what its line feeds separate; \<open>cur\<close> holds the line being
  read, last character first.
\<close>

fun linesFrom :: "string \<Rightarrow> string \<Rightarrow> string list" where
  "linesFrom cur [] = [rev cur]"
| "linesFrom cur (c # cs) = (if c = NL then rev cur # linesFrom [] cs else linesFrom (c # cur) cs)"

definition linesOf :: "string \<Rightarrow> string list" where
  "linesOf s = linesFrom [] s"

definition lastLineWhere :: "(string \<Rightarrow> bool) \<Rightarrow> string \<Rightarrow> string" where
  "lastLineWhere p s = (case filter p (linesOf s) of [] \<Rightarrow> [] | l # ls \<Rightarrow> last (l # ls))"

text \<open>
  Two readings of ``the last non-empty line'': the last line that has a character, and the
  last line that has a character other than white space.
\<close>

definition whiteSpace :: "char \<Rightarrow> bool" where
  "whiteSpace c = (c \<in> set [CHR 0x09, CHR 0x0A, CHR 0x0B, CHR 0x0C, CHR 0x0D, CHR 0x20, CHR 0xA0])"

definition lastNonEmptyLine :: "string \<Rightarrow> string" where
  "lastNonEmptyLine s = lastLineWhere (\<lambda>l. l \<noteq> []) s"

definition lastNonBlankLine :: "string \<Rightarrow> string" where
  "lastNonBlankLine s = lastLineWhere (\<lambda>l. \<not> list_all whiteSpace l) s"

text \<open>
  A number in decimal digits: a digit is worth its place among the ten digits.
\<close>

definition isDecimalDigit :: "char \<Rightarrow> bool" where
  "isDecimalDigit c = (c \<in> set ''0123456789'')"

definition digitValue :: "char \<Rightarrow> int" where
  "digitValue c = int (length (takeWhile (\<lambda>d. d \<noteq> c) ''0123456789''))"

definition numberOf :: "string \<Rightarrow> int" where
  "numberOf ds = foldl (\<lambda>n c. 10 * n + digitValue c) 0 ds"

definition hasPrefix :: "string \<Rightarrow> string \<Rightarrow> bool" where
  "hasPrefix s p = (take (length p) s = p)"

text \<open>
  An integer group: the number written in decimal digits directly before one of the given
  words, at the first place in the line where there is one; \<open>None\<close> if there is none.
\<close>

fun numberBefore :: "string list \<Rightarrow> string \<Rightarrow> int option" where
  "numberBefore words [] = None"
| "numberBefore words (c # cs) =
     (let ds = takeWhile isDecimalDigit (c # cs)
      in if ds \<noteq> [] \<and> list_ex (hasPrefix (drop (length ds) (c # cs))) words
         then Some (numberOf ds)
         else numberBefore words cs)"

definition countOf :: "string list \<Rightarrow> string \<Rightarrow> int" where
  "countOf words l = (case numberBefore words l of None \<Rightarrow> 0 | Some n \<Rightarrow> n)"

definition statsOfLine :: "string \<Rightarrow> GitDiffStats" where
  "statsOfLine l =
     \<lparr> additions = countOf ['' insertion(+)'', '' insertions(+)''] l,
       deletions = countOf ['' deletion(-)'', '' deletions(-)''] l,
       filesChanged = countOf ['' file changed'', '' files changed''] l \<rparr>"

definition parseStatSummary_literal :: "string \<Rightarrow> GitDiffStats" where
  "parseStatSummary_literal s = statsOfLine (lastNonEmptyLine s)"

definition parseStatSummary_nonblank :: "string \<Rightarrow> GitDiffStats" where
  "parseStatSummary_nonblank s = statsOfLine (lastNonBlankLine s)"

section \<open>The environment: VCS command gateway, file system, clock\<close>

text \<open>
  What the sources reach outside the process, as one record of functions, read as a
  snapshot: \<open>execSync env command cwd\<close> is the text the command prints in directory
  \<open>cwd\<close>, or the value it throws (a non-zero exit throws); \<open>readFileSync\<close> and
  \<open>existsSync\<close> are the file system's; \<open>pathJoin\<close> and \<open>isAbsolute\<close> are Node's
  \<^verbatim>\<open>path.join\<close> and \<^verbatim>\<open>path.isAbsolute\<close>; \<open>watch env path\<close> is what \<^verbatim>\<open>fs.watch\<close> throws
  for the directory (\<open>None\<close> when it returns a watcher); \<open>dateParse\<close> is \<^verbatim>\<open>new Date(s).getTime()\<close>
  (\<open>None\<close> for an invalid date) and \<open>dateNow\<close> is \<^verbatim>\<open>new Date()\<close>, both in milliseconds.
\<close>

record Env =
  execSync :: "string \<Rightarrow> string \<Rightarrow> js_error + string"
  readFileSync :: "string \<Rightarrow> js_error + string"
  existsSync :: "string \<Rightarrow> bool"
  pathJoin :: "string \<Rightarrow> string \<Rightarrow> string"
  isAbsolute :: "string \<Rightarrow> bool"
  watch :: "string \<Rightarrow> js_error option"
  dateParse :: "string option \<Rightarrow> int option"
  dateNow :: int

text \<open>\<^verbatim>\<open>content.split(/\r?\n/)\<close>: a line feed, with the carriage return before it if any, separates.\<close>

fun splitLines :: "string \<Rightarrow> string list" where
  "splitLines [] = [[]]"
| "splitLines (x # xs) =
     (if x = NL then [] # splitLines xs
      else if x = CR \<and> startsWith xs [NL] then [] # splitLines (drop 1 xs)
      else (case splitLines xs of l # ls \<Rightarrow> (x # l) # ls))"

text \<open>A non-negative integer inside a template literal.\<close>

definition digitChar :: "nat \<Rightarrow> char" where
  "digitChar d = ''0123456789'' ! d"

function showNat :: "nat \<Rightarrow> string" where
  "showNat n = (if n < 10 then [digitChar n] else showNat (n div 10) @ [digitChar (n mod 10)])"
  by pat_completeness auto
termination
  by (relation "measure id") auto

declare showNat.simps [simp del]

subsection \<open>Working-directory diff\<close>

definition zeroStats :: GitDiffStats where
  "zeroStats = \<lparr> additions = 0, deletions = 0, filesChanged = 0 \<rparr>"

definition getCurrentCommitHash :: "Env \<Rightarrow> string \<Rightarrow> string" where
  "getCurrentCommitHash env worktreePath =
     (case execSync env ''git rev-parse HEAD'' worktreePath of
        Inl e \<Rightarrow> []
      | Inr out \<Rightarrow> trim out)"

definition getUntrackedFiles :: "Env \<Rightarrow> string \<Rightarrow> string list" where
  "getUntrackedFiles env worktreePath =
     (case execSync env ''git ls-files --others --exclude-standard'' worktreePath of
        Inl e \<Rightarrow> []
      | Inr output \<Rightarrow>
          if output = [] \<or> length (trim output) = 0 then []
          else filter (\<lambda>f. f \<noteq> [] \<and> length (trim f) > 0) (split NL (trim output)))"

text \<open>The loop of createDiffForUntrackedFiles over the untracked files; \<open>diffOutput\<close> accumulates.\<close>

fun createDiffForUntrackedFiles :: "Env \<Rightarrow> string \<Rightarrow> string list \<Rightarrow> string \<Rightarrow> string" where
  "createDiffForUntrackedFiles env worktreePath [] diffOutput = diffOutput"
| "createDiffForUntrackedFiles env worktreePath (file # files) diffOutput =
     (if file = [] \<or> length (trim file) = 0
      then createDiffForUntrackedFiles env worktreePath files diffOutput
      else
        (let cleanFile = trim file;
             filePath = pathJoin env worktreePath cleanFile
         in case readFileSync env filePath of
              Inl e \<Rightarrow> createDiffForUntrackedFiles env worktreePath files diffOutput
            | Inr fileContent \<Rightarrow>
                (let header = ''diff --git a/'' @ cleanFile @ '' b/'' @ cleanFile @ [NL]
                       @ ''new file mode 100644'' @ [NL]
                       @ ''index 0000000..0000000'' @ [NL]
                       @ ''--- /dev/null'' @ [NL]
                       @ ''+++ b/'' @ cleanFile @ [NL];
                     lines = splitLines fileContent;
                     hunk = (if length lines > 0
                             then ''@@ -0,0 +1,'' @ showNat (length lines) @ '' @@'' @ [NL]
                                  @ concat (map (\<lambda>line. ''+'' @ line @ [NL]) lines)
                             else [])
                 in createDiffForUntrackedFiles env worktreePath files
                      (diffOutput @ header @ hunk))))"

definition getGitDiffString :: "Env \<Rightarrow> string \<Rightarrow> string" where
  "getGitDiffString env worktreePath =
     (case execSync env ''git rev-parse --git-dir'' worktreePath of
        Inl e \<Rightarrow> []
      | Inr gitDir \<Rightarrow>
     (case execSync env ''git status --porcelain'' worktreePath of
        Inl e \<Rightarrow> []
      | Inr status \<Rightarrow>
     (case execSync env ''git diff HEAD'' worktreePath of
        Inl e \<Rightarrow> []
      | Inr diff0 \<Rightarrow>
          (let untrackedFiles = getUntrackedFiles env worktreePath
           in if length untrackedFiles > 0
              then (let untrackedDiff = createDiffForUntrackedFiles env worktreePath untrackedFiles []
                    in if untrackedDiff \<noteq> []
                       then (if diff0 \<noteq> [] then diff0 @ [NL] @ untrackedDiff else untrackedDiff)
                       else diff0)
              else diff0))))"

definition getChangedFiles :: "Env \<Rightarrow> string \<Rightarrow> string list" where
  "getChangedFiles env worktreePath =
     (case execSync env ''git diff --name-only HEAD'' worktreePath of
        Inl e \<Rightarrow> []
      | Inr trackedOutput \<Rightarrow>
          (let trackedFiles = filter (\<lambda>f. length f > 0) (split NL (trim trackedOutput));
               untrackedFiles = getUntrackedFiles env worktreePath
           in trackedFiles @ untrackedFiles))"

text \<open>The loop of getDiffStats over the untracked files; \<open>untrackedAdditions\<close> accumulates.\<close>

fun countUntrackedAdditions :: "Env \<Rightarrow> string \<Rightarrow> string list \<Rightarrow> int \<Rightarrow> int" where
  "countUntrackedAdditions env worktreePath [] untrackedAdditions = untrackedAdditions"
| "countUntrackedAdditions env worktreePath (file # files) untrackedAdditions =
     (if file = [] \<or> length (trim file) = 0
      then countUntrackedAdditions env worktreePath files untrackedAdditions
      else
        (let cleanFile = trim file;
             filePath = pathJoin env worktreePath cleanFile
         in case readFileSync env filePath of
              Inl e \<Rightarrow> countUntrackedAdditions env worktreePath files untrackedAdditions
            | Inr content \<Rightarrow>
                (let lineCount = (if length content = 0 then 0
                                  else int (length (splitLines content)))
                 in countUntrackedAdditions env worktreePath files
                      (untrackedAdditions + lineCount))))"

definition getDiffStats :: "Env \<Rightarrow> string \<Rightarrow> GitDiffStats" where
  "getDiffStats env worktreePath =
     (case execSync env ''git diff --stat HEAD'' worktreePath of
        Inl e \<Rightarrow> zeroStats
      | Inr output \<Rightarrow>
     (case parseDiffStats output of
        Inl e \<Rightarrow> zeroStats
      | Inr trackedStats \<Rightarrow>
          (let untrackedFiles = getUntrackedFiles env worktreePath
           in if length untrackedFiles > 0
              then \<lparr> additions = additions trackedStats
                                   + countUntrackedAdditions env worktreePath untrackedFiles 0,
                     deletions = deletions trackedStats,
                     filesChanged = filesChanged trackedStats + int (length untrackedFiles) \<rparr>
              else trackedStats)))"

text \<open>
  captureWorkingDirectoryDiff rethrows what its body throws, and its body calls only the
  four functions above, each of which catches what the gateway throws.
\<close>

definition captureWorkingDirectoryDiff :: "Env \<Rightarrow> string \<Rightarrow> js_error + GitDiffResult" where
  "captureWorkingDirectoryDiff env worktreePath =
     (let beforeHash' = getCurrentCommitHash env worktreePath;
          diff' = getGitDiffString env worktreePath;
          changedFiles' = getChangedFiles env worktreePath;
          stats' = getDiffStats env worktreePath
      in Inr \<lparr> diff = diff', stats = stats', changedFiles = changedFiles',
               beforeHash = Some beforeHash', afterHash = None \<rparr>)"

subsection \<open>Single-commit diff\<close>

definition getCommitStats :: "Env \<Rightarrow> string \<Rightarrow> string \<Rightarrow> GitDiffStats" where
  "getCommitStats env worktreePath commitHash =
     (case execSync env (''git show --stat --format= -m '' @ commitHash) worktreePath of
        Inl e \<Rightarrow> zeroStats
      | Inr fullOutput \<Rightarrow>
          (let lines = split NL (trim fullOutput)
           in case at lines (int (length lines) - 1) of
                None \<Rightarrow> zeroStats
              | Some statsOutput \<Rightarrow>
                  (case parseDiffStats statsOutput of
                     Inl e \<Rightarrow> zeroStats
                   | Inr st \<Rightarrow> st)))"

definition getCommitChangedFiles :: "Env \<Rightarrow> string \<Rightarrow> string \<Rightarrow> string list" where
  "getCommitChangedFiles env worktreePath commitHash =
     (case execSync env (''git show --name-only --format= '' @ commitHash) worktreePath of
        Inl e \<Rightarrow> []
      | Inr output \<Rightarrow> filter (\<lambda>f. f \<noteq> []) (split NL (trim output)))"

text \<open>
  getCommitDiff: the \<^verbatim>\<open>catch\<close> of its body logs and returns the empty result, so
  the function has no abnormal outcome of its own.
\<close>

definition getCommitDiff :: "Env \<Rightarrow> string \<Rightarrow> string \<Rightarrow> js_error + GitDiffResult" where
  "getCommitDiff env worktreePath commitHash =
     (case execSync env (''git show --format= --patch -m '' @ commitHash) worktreePath of
        Inl e \<Rightarrow>
          Inr \<lparr> diff = [], stats = \<lparr> additions = 0, deletions = 0, filesChanged = 0 \<rparr>,
                changedFiles = [], beforeHash = None, afterHash = None \<rparr>
      | Inr diff' \<Rightarrow>
          (let stats' = getCommitStats env worktreePath commitHash;
               changedFiles' = getCommitChangedFiles env worktreePath commitHash
           in Inr \<lparr> diff = diff', stats = stats', changedFiles = changedFiles',
                    beforeHash = Some (commitHash @ ''~1''), afterHash = Some commitHash \<rparr>))"

subsection \<open>Commit history\<close>

text \<open>
  A commit as getCommitHistory builds it. The header line is split at \<^verbatim>\<open>|\<close> and
  destructured, so a field past the line's last part is \<^verbatim>\<open>undefined\<close>, here \<open>None\<close>.
\<close>

record GitCommit =
  hash :: string
  message :: "string option"
  date :: int
  author :: "string option"
  commitStats :: GitDiffStats

text \<open>\<^verbatim>\<open>s.split(/\s+/)\<close>: every maximal run of white space separates.\<close>

function splitSpaces :: "string \<Rightarrow> string list" where
  "splitSpaces [] = [[]]"
| "splitSpaces (x # xs) =
     (if isSpace x then [] # splitSpaces (dropWhile isSpace xs)
      else (case splitSpaces xs of l # ls \<Rightarrow> (x # l) # ls))"
  by pat_completeness auto
termination
  by (relation "measure length") (auto simp: length_dropWhile_le less_Suc_eq_le)

fun parseNumstatLoop :: "string list \<Rightarrow> GitDiffStats \<Rightarrow> GitDiffStats" where
  "parseNumstatLoop [] acc = acc"
| "parseNumstatLoop (line # lines) acc =
     (let parts = splitSpaces (trim line)
      in if length parts \<ge> 3
         then (let added = (if parts ! 0 = ''-'' then Some 0 else parseInt10 (parts ! 0));
                   deleted = (if parts ! 1 = ''-'' then Some 0 else parseInt10 (parts ! 1))
               in case (added, deleted) of
                    (Some a, Some d) \<Rightarrow>
                      parseNumstatLoop lines
                        \<lparr> additions = additions acc + a, deletions = deletions acc + d,
                          filesChanged = filesChanged acc + 1 \<rparr>
                  | _ \<Rightarrow> parseNumstatLoop lines acc)
         else parseNumstatLoop lines acc)"

definition parseNumstatOutput :: "string list \<Rightarrow> GitDiffStats" where
  "parseNumstatOutput lines =
     parseNumstatLoop lines \<lparr> additions = 0, deletions = 0, filesChanged = 0 \<rparr>"

text \<open>
  \<^verbatim>\<open>currentCommit\<close> is the object pushed last onto \<^verbatim>\<open>commits\<close>, and it is \<^verbatim>\<open>null\<close> exactly
  while \<^verbatim>\<open>commits\<close> is empty; assigning its \<^verbatim>\<open>stats\<close> changes the last element.
\<close>

definition setCurrentStats :: "GitCommit list \<Rightarrow> GitDiffStats \<Rightarrow> GitCommit list" where
  "setCurrentStats commits st =
     (case rev commits of [] \<Rightarrow> [] | c # cs \<Rightarrow> rev cs @ [c \<lparr> commitStats := st \<rparr>])"

definition flushStats :: "GitCommit list \<times> string list \<Rightarrow> GitCommit list" where
  "flushStats state =
     (case state of (commits, statsLines) \<Rightarrow>
        if commits \<noteq> [] \<and> length statsLines > 0
        then setCurrentStats commits (parseNumstatOutput statsLines)
        else commits)"

definition logLineStep :: "Env \<Rightarrow> GitCommit list \<times> string list \<Rightarrow> string \<Rightarrow> GitCommit list \<times> string list" where
  "logLineStep env state line =
     (case state of (commits, statsLines) \<Rightarrow>
        if includes_str line ''|''
        then (let commits1 = flushStats (commits, statsLines)
              in case split (CHR ''|'') line of
                   hash' # rest \<Rightarrow>
                     (let parsedDate = (case dateParse env (at rest 1) of
                                          Some t \<Rightarrow> t
                                        | None \<Rightarrow> dateNow env);
                          currentCommit =
                            \<lparr> hash = hash', message = at rest 0, date = parsedDate,
                              author = at rest 2,
                              commitStats = \<lparr> additions = 0, deletions = 0, filesChanged = 0 \<rparr> \<rparr>
                      in (commits1 @ [currentCommit], [])))
        else if trim line \<noteq> [] \<and> commits \<noteq> []
        then (commits, statsLines @ [line])
        else (commits, statsLines))"

text \<open>The \<^verbatim>\<open>Map\<close> from hash to full message, filled from the NUL-separated parts two by two.\<close>

fun fullMapOf :: "string list \<Rightarrow> (string \<rightharpoonup> string) \<Rightarrow> (string \<rightharpoonup> string)" where
  "fullMapOf (h # msg # parts) fullMap = fullMapOf parts (fullMap(h \<mapsto> trim msg))"
| "fullMapOf parts fullMap = fullMap"

definition fillMessages :: "Env \<Rightarrow> string \<Rightarrow> string \<Rightarrow> GitCommit list \<Rightarrow> GitCommit list" where
  "fillMessages env worktreePath fullCmd commits =
     (case execSync env fullCmd worktreePath of
        Inl e \<Rightarrow> commits
      | Inr fullOutput \<Rightarrow>
          (let parts = filter (\<lambda>p. p \<noteq> []) (split (CHR 0x00) fullOutput);
               fullMap = fullMapOf parts Map.empty
           in map (\<lambda>c. case fullMap (hash c) of
                          Some full \<Rightarrow> if full \<noteq> [] \<and> length full > 0
                                       then c \<lparr> message := Some full \<rparr> else c
                        | None \<Rightarrow> c) commits))"

text \<open>
  getCommitHistory. Only the first gateway call can throw into the outer \<^verbatim>\<open>catch\<close>:
  an invalid date is caught where it is raised, and the second call has its own \<^verbatim>\<open>catch\<close>.
\<close>

definition errorMessageOf :: "js_error \<Rightarrow> string" where
  "errorMessageOf e = (case e of Error m \<Rightarrow> m | TypeError m \<Rightarrow> m | _ \<Rightarrow> ''Unknown error'')"

definition getCommitHistory :: "Env \<Rightarrow> string \<Rightarrow> nat \<Rightarrow> string \<Rightarrow> js_error + GitCommit list" where
  "getCommitHistory env worktreePath limit mainBranch =
     (let gitCommand = ''git log --format='' @ [DQ] @ ''%H|%s|%ai|%an'' @ [DQ] @ '' --numstat -n '' @ showNat limit
                       @ '' HEAD --not '' @ mainBranch @ '' --''
      in case execSync env gitCommand worktreePath of
           Inl error \<Rightarrow>
             (let errorMessage = errorMessageOf error
              in if includes_str errorMessage ''fatal:'' \<or> includes_str errorMessage ''error:''
                 then Inl (Error (''Git error: '' @ errorMessage))
                 else Inr [])
         | Inr logOutput \<Rightarrow>
             (let lines = split NL (trim logOutput);
                  state = foldl (logLineStep env) ([], []) lines;
                  fullCmd = ''git log --format='' @ [DQ] @ ''%H%x00%B%x00'' @ [DQ] @ '' -n '' @ showNat limit
                            @ '' HEAD --not '' @ mainBranch @ '' --'';
                  commits = fillMessages env worktreePath fullCmd (fst state)
              in Inr (flushStats (commits, snd state))))"

subsection \<open>Example environments\<close>

text \<open>
  A work tree with one modified tracked file (3 insertions, 1 deletion) and one untracked
  file \<^verbatim>\<open>new.txt\<close> whose content is given.
\<close>

definition untrackedFileEnv :: "string \<Rightarrow> Env" where
  "untrackedFileEnv content =
     \<lparr> execSync = (\<lambda>command cwd.
          if command = ''git diff --stat HEAD''
          then Inr ('' a.txt | 4 +++-'' @ [NL] @ '' 1 file changed, 3 insertions(+), 1 deletion(-)'' @ [NL])
          else if command = ''git ls-files --others --exclude-standard''
          then Inr (''new.txt'' @ [NL])
          else Inl (Error ''unexpected command'')),
       readFileSync = (\<lambda>p. if p = ''/repo/new.txt'' then Inr content
                            else Inl (Error ''ENOENT: no such file or directory'')),
       existsSync = (\<lambda>p. False),
       pathJoin = (\<lambda>a b. a @ ''/'' @ b),
       isAbsolute = (\<lambda>p. startsWith p ''/''),
       watch = (\<lambda>p. None),
       dateParse = (\<lambda>s. None),
       dateNow = 0 \<rparr>"

text \<open>A gateway whose every command throws the same error.\<close>

definition failingEnv :: "string \<Rightarrow> Env" where
  "failingEnv msg =
     \<lparr> execSync = (\<lambda>command cwd. Inl (Error msg)),
       readFileSync = (\<lambda>p. Inl (Error ''ENOENT: no such file or directory'')),
       existsSync = (\<lambda>p. False),
       pathJoin = (\<lambda>a b. a @ ''/'' @ b),
       isAbsolute = (\<lambda>p. startsWith p ''/''),
       watch = (\<lambda>p. None),
       dateParse = (\<lambda>s. None),
       dateNow = 0 \<rparr>"

text \<open>A gateway whose every command succeeds and prints nothing.\<close>

definition silentEnv :: Env where
  "silentEnv =
     \<lparr> execSync = (\<lambda>command cwd. Inr []),
       readFileSync = (\<lambda>p. Inl (Error ''ENOENT: no such file or directory'')),
       existsSync = (\<lambda>p. False),
       pathJoin = (\<lambda>a b. a @ ''/'' @ b),
       isAbsolute = (\<lambda>p. startsWith p ''/''),
       watch = (\<lambda>p. None),
       dateParse = (\<lambda>s. None),
       dateNow = 0 \<rparr>"

section \<open>gitFileWatcher.ts\<close>

subsection \<open>State\<close>

text \<open>
  A watched session; \<open>watcher\<close> is the handle of its \<^verbatim>\<open>FSWatcher\<close> (an optional field).
\<close>

record WatchedSession =
  sessionId :: string
  worktreePath :: string
  watcher :: "nat option"
  lastModified :: int
  pendingRefresh :: bool

text \<open>
  The three \<^verbatim>\<open>Map\<close>s of a GitFileWatcher, and what it holds of the runtime: the
  \<^verbatim>\<open>FSWatcher\<close>s that are open, each with the session id its callback was created for;
  the timeouts that are armed, each with the session id of its callback and its delay in
  milliseconds; and the \<^verbatim>\<open>needs-refresh\<close> events emitted so far, oldest first.
  \<open>watchedSessions\<close> is iterated by the sources, so it is a list in insertion order;
  the other two maps are only looked up.
\<close>

record WatcherState =
  watchedSessions :: "(string \<times> WatchedSession) list"
  refreshDebounceTimers :: "string \<rightharpoonup> nat"
  errorCounts :: "string \<rightharpoonup> nat"
  openWatchers :: "(nat \<times> string) list"
  nextWatcher :: nat
  pendingTimeouts :: "(nat \<times> string \<times> nat) list"
  nextTimeout :: nat
  emitted :: "string list"

definition initialState :: WatcherState where
  "initialState =
     \<lparr> watchedSessions = [], refreshDebounceTimers = Map.empty, errorCounts = Map.empty,
       openWatchers = [], nextWatcher = 0, pendingTimeouts = [], nextTimeout = 0,
       emitted = [] \<rparr>"

definition DEBOUNCE_MS :: nat where "DEBOUNCE_MS = 1500"
definition BASE_BACKOFF_MS :: nat where "BASE_BACKOFF_MS = 1000"
definition MAX_BACKOFF_MS :: nat where "MAX_BACKOFF_MS = 30000"

definition IGNORE_PATTERNS :: "string list" where
  "IGNORE_PATTERNS =
     [''.git/'', ''node_modules/'', ''.DS_Store'', ''thumbs.db'', ''*.swp'', ''*.swo'',
      ''*~'', ''.#*'', ''#*#'']"

subsection \<open>Runtime primitives\<close>

text \<open>\<^verbatim>\<open>watcher?.close()\<close>: the handle leaves the open watchers.\<close>

definition closeWatcher :: "nat option \<Rightarrow> WatcherState \<Rightarrow> WatcherState" where
  "closeWatcher w s =
     (case w of
        None \<Rightarrow> s
      | Some h \<Rightarrow> s \<lparr> openWatchers := filter (\<lambda>e. fst e \<noteq> h) (openWatchers s) \<rparr>)"

definition clearTimeout :: "nat \<Rightarrow> WatcherState \<Rightarrow> WatcherState" where
  "clearTimeout t s = s \<lparr> pendingTimeouts := filter (\<lambda>e. fst e \<noteq> t) (pendingTimeouts s) \<rparr>"

definition setTimeout :: "string \<Rightarrow> nat \<Rightarrow> WatcherState \<Rightarrow> nat \<times> WatcherState" where
  "setTimeout sid delayMs s =
     (nextTimeout s,
      s \<lparr> pendingTimeouts := pendingTimeouts s @ [(nextTimeout s, sid, delayMs)],
          nextTimeout := Suc (nextTimeout s) \<rparr>)"

subsection \<open>Lifecycle\<close>

definition stopWatching :: "WatcherState \<Rightarrow> string \<Rightarrow> WatcherState" where
  "stopWatching s sid =
     (case map_of (watchedSessions s) sid of
        None \<Rightarrow> s
      | Some session \<Rightarrow>
          (let s1 = closeWatcher (watcher session) s;
               s2 = s1 \<lparr> watchedSessions := AList.delete sid (watchedSessions s1) \<rparr>
           in case refreshDebounceTimers s2 sid of
                None \<Rightarrow> s2
              | Some timer \<Rightarrow>
                  (clearTimeout timer s2)
                    \<lparr> refreshDebounceTimers := (refreshDebounceTimers s2)(sid := None) \<rparr>))"

definition startWatching :: "Env \<Rightarrow> WatcherState \<Rightarrow> string \<Rightarrow> string \<Rightarrow> WatcherState" where
  "startWatching env s sid path =
     (let s1 = stopWatching s sid
      in case watch env path of
           Some e \<Rightarrow> s1
         | None \<Rightarrow>
             (let h = nextWatcher s1;
                  s2 = s1 \<lparr> openWatchers := openWatchers s1 @ [(h, sid)],
                            nextWatcher := Suc h \<rparr>
              in s2 \<lparr> watchedSessions :=
                        AList.update sid
                          \<lparr> sessionId = sid, worktreePath = path, watcher = Some h,
                            lastModified = dateNow env, pendingRefresh = False \<rparr>
                          (watchedSessions s2) \<rparr>))"

definition stopAll :: "WatcherState \<Rightarrow> WatcherState" where
  "stopAll s = foldl stopWatching s (map fst (watchedSessions s))"

subsection \<open>File events and the debounce timer\<close>

definition endsWith :: "string \<Rightarrow> string \<Rightarrow> bool" where
  "endsWith s p = startsWith (rev s) (rev p)"

fun shouldIgnoreLoop :: "string \<Rightarrow> string list \<Rightarrow> bool" where
  "shouldIgnoreLoop filename [] = False"
| "shouldIgnoreLoop filename (pattern # patterns) =
     (if endsWith pattern ''/''
      then (if startsWith filename pattern \<or> includes_str filename (''/'' @ pattern) then True
            else shouldIgnoreLoop filename patterns)
      else if startsWith pattern ''*.''
      then (let ext = drop 1 pattern
            in if endsWith filename ext then True else shouldIgnoreLoop filename patterns)
      else if startsWith pattern ''.#'' \<or> startsWith pattern ''#''
      then (let basename = last (split (CHR ''/'') filename)
            in if startsWith basename ''.#''
                  \<or> (startsWith basename ''#'' \<and> endsWith basename ''#'')
               then True else shouldIgnoreLoop filename patterns)
      else if endsWith pattern ''~''
      then (if endsWith filename ''~'' then True else shouldIgnoreLoop filename patterns)
      else (if filename = pattern \<or> endsWith filename (''/'' @ pattern) then True
            else shouldIgnoreLoop filename patterns))"

definition shouldIgnoreFile :: "string \<Rightarrow> bool" where
  "shouldIgnoreFile filename = shouldIgnoreLoop filename IGNORE_PATTERNS"

definition scheduleRefreshCheckWithDelay :: "WatcherState \<Rightarrow> string \<Rightarrow> nat \<Rightarrow> WatcherState" where
  "scheduleRefreshCheckWithDelay s sid delayMs =
     (let s1 = (case refreshDebounceTimers s sid of
                  Some existingTimer \<Rightarrow> clearTimeout existingTimer s
                | None \<Rightarrow> s);
          (timer, s2) = setTimeout sid delayMs s1
      in s2 \<lparr> refreshDebounceTimers := (refreshDebounceTimers s2)(sid \<mapsto> timer) \<rparr>)"

definition scheduleRefreshCheck :: "WatcherState \<Rightarrow> string \<Rightarrow> WatcherState" where
  "scheduleRefreshCheck s sid = scheduleRefreshCheckWithDelay s sid DEBOUNCE_MS"

definition handleFileChange :: "Env \<Rightarrow> WatcherState \<Rightarrow> string \<Rightarrow> string \<Rightarrow> string \<Rightarrow> WatcherState" where
  "handleFileChange env s sid filename eventType =
     (if shouldIgnoreFile filename then s
      else case map_of (watchedSessions s) sid of
             None \<Rightarrow> s
           | Some session \<Rightarrow>
               (let session' = session \<lparr> lastModified := dateNow env, pendingRefresh := True \<rparr>;
                    s1 = s \<lparr> watchedSessions := AList.update sid session' (watchedSessions s) \<rparr>
                in scheduleRefreshCheck s1 sid))"

text \<open>
  The callback startWatching gives to \<^verbatim>\<open>fs.watch\<close>, run for an event of watcher \<open>h\<close>: a
  closed watcher reports nothing, and an event with no file name is dropped.
\<close>

definition watchCallback :: "Env \<Rightarrow> WatcherState \<Rightarrow> nat \<Rightarrow> string \<Rightarrow> string option \<Rightarrow> WatcherState" where
  "watchCallback env s h eventType filename =
     (case map_of (openWatchers s) h of
        None \<Rightarrow> s
      | Some sid \<Rightarrow>
          (case filename of
             None \<Rightarrow> s
           | Some f \<Rightarrow> if f = [] then s else handleFileChange env s sid f eventType))"

subsection \<open>The refresh check and its backoff\<close>

definition getBackoffDelay :: "WatcherState \<Rightarrow> string \<Rightarrow> nat \<times> WatcherState" where
  "getBackoffDelay s sid =
     (let count = (case errorCounts s sid of Some c \<Rightarrow> c | None \<Rightarrow> 0) + 1;
          s1 = s \<lparr> errorCounts := (errorCounts s)(sid \<mapsto> count) \<rparr>;
          delay = min (BASE_BACKOFF_MS * 2 ^ (count - 1)) MAX_BACKOFF_MS
      in (delay, s1))"

definition resetBackoff :: "WatcherState \<Rightarrow> string \<Rightarrow> WatcherState" where
  "resetBackoff s sid = s \<lparr> errorCounts := (errorCounts s)(sid := None) \<rparr>"

text \<open>
  checkIfRefreshNeeded: \<open>Some True\<close> for changes, \<open>Some False\<close> for a clean tree, \<open>None\<close>
  for \<^verbatim>\<open>undefined\<close>. Its outer \<^verbatim>\<open>catch\<close> turns whatever is thrown into \<^verbatim>\<open>undefined\<close>; the
  only call not wrapped in a \<^verbatim>\<open>try\<close> of its own is the last.
\<close>

definition checkIfRefreshNeeded :: "Env \<Rightarrow> string \<Rightarrow> js_error + bool option" where
  "checkIfRefreshNeeded env worktreePath' =
     (case execSync env ''git rev-parse --is-inside-work-tree'' worktreePath' of
        Inl e \<Rightarrow> Inr None
      | Inr out1 \<Rightarrow>
     if trim out1 \<noteq> ''true'' then Inr None else
     (case execSync env ''git rev-parse --git-dir'' worktreePath' of
        Inl e \<Rightarrow> Inr None
      | Inr out2 \<Rightarrow>
     (let gitDirRaw = trim out2;
          gitDir = (if isAbsolute env gitDirRaw then gitDirRaw
                    else pathJoin env worktreePath' gitDirRaw);
          lockPath = pathJoin env gitDir ''index.lock''
      in if existsSync env lockPath then Inr None else
     (case execSync env ''git update-index --refresh --ignore-submodules'' worktreePath' of
        Inl e \<Rightarrow> Inr None
      | Inr out3 \<Rightarrow>
     (case execSync env ''git diff-files --quiet --ignore-submodules'' worktreePath' of
        Inl e \<Rightarrow> Inr (Some True)
      | Inr out4 \<Rightarrow>
     (case execSync env ''git diff-index --cached --quiet HEAD --ignore-submodules'' worktreePath' of
        Inl e \<Rightarrow> Inr (Some True)
      | Inr out5 \<Rightarrow>
     (case execSync env ''git ls-files --others --exclude-standard'' worktreePath' of
        Inl e \<Rightarrow> Inr None
      | Inr out6 \<Rightarrow>
          (let untrackedOutput = trim out6
           in if untrackedOutput \<noteq> [] then Inr (Some True) else Inr (Some False)))))))))"

text \<open>Assigning \<^verbatim>\<open>session.pendingRefresh\<close> changes the session object held in the map.\<close>

definition setPendingRefresh :: "WatcherState \<Rightarrow> string \<Rightarrow> bool \<Rightarrow> WatcherState" where
  "setPendingRefresh s sid b =
     s \<lparr> watchedSessions :=
           AList.map_entry sid (\<lambda>session. session \<lparr> pendingRefresh := b \<rparr>) (watchedSessions s) \<rparr>"

text \<open>The two places of performRefreshCheck that schedule a retry do the same three things.\<close>

definition retryWithBackoff :: "WatcherState \<Rightarrow> string \<Rightarrow> WatcherState" where
  "retryWithBackoff s sid =
     (let (delay, s1) = getBackoffDelay s sid;
          s2 = setPendingRefresh s1 sid True
      in scheduleRefreshCheckWithDelay s2 sid delay)"

definition performRefreshCheck :: "Env \<Rightarrow> WatcherState \<Rightarrow> string \<Rightarrow> WatcherState" where
  "performRefreshCheck env s sid =
     (case map_of (watchedSessions s) sid of
        None \<Rightarrow> s
      | Some session \<Rightarrow>
          if \<not> pendingRefresh session then s
          else
            (let s1 = setPendingRefresh s sid False
             in case checkIfRefreshNeeded env (worktreePath session) of
                  Inl error \<Rightarrow> retryWithBackoff s1 sid
                | Inr None \<Rightarrow> retryWithBackoff s1 sid
                | Inr (Some needsRefresh) \<Rightarrow>
                    (let s2 = resetBackoff s1 sid
                     in if needsRefresh then s2 \<lparr> emitted := emitted s2 @ [sid] \<rparr> else s2)))"

text \<open>
  An armed timeout fires: it leaves the runtime's table, and its callback deletes the
  map entry of its session id and runs the check.
\<close>

definition fireTimeout :: "Env \<Rightarrow> WatcherState \<Rightarrow> nat \<Rightarrow> WatcherState" where
  "fireTimeout env s t =
     (case map_of (pendingTimeouts s) t of
        None \<Rightarrow> s
      | Some (sid, delayMs) \<Rightarrow>
          (let s1 = clearTimeout t s;
               s2 = s1 \<lparr> refreshDebounceTimers := (refreshDebounceTimers s1)(sid := None) \<rparr>
           in performRefreshCheck env s2 sid))"

definition getStats :: "WatcherState \<Rightarrow> nat \<times> nat" where
  "getStats s =
     (length (watchedSessions s),
      length (filter (\<lambda>(k, session). pendingRefresh session) (watchedSessions s)))"

subsection \<open>Runs of the watcher\<close>

text \<open>
  What can happen to a GitFileWatcher: a call of its public interface, a file event of an
  open watcher, or an armed timeout firing; each happens in the environment of its moment.
\<close>

datatype watcher_event =
    StartWatching string string
  | StopWatching string
  | StopAll
  | FsEvent nat string "string option"
  | Timeout nat

fun step :: "WatcherState \<Rightarrow> Env \<times> watcher_event \<Rightarrow> WatcherState" where
  "step s (env, StartWatching sid path) = startWatching env s sid path"
| "step s (env, StopWatching sid) = stopWatching s sid"
| "step s (env, StopAll) = stopAll s"
| "step s (env, FsEvent h eventType filename) = watchCallback env s h eventType filename"
| "step s (env, Timeout t) = fireTimeout env s t"

definition run :: "(Env \<times> watcher_event) list \<Rightarrow> WatcherState" where
  "run evs = foldl step initialState evs"

text \<open>The open watchers, and the armed timeouts, whose callback is for session id \<open>sid\<close>.\<close>

definition watchersOf :: "WatcherState \<Rightarrow> string \<Rightarrow> nat list" where
  "watchersOf s sid = map fst (filter (\<lambda>e. snd e = sid) (openWatchers s))"

definition timeoutsOf :: "WatcherState \<Rightarrow> string \<Rightarrow> (nat \<times> nat) list" where
  "timeoutsOf s sid =
     map (\<lambda>e. (fst e, snd (snd e))) (filter (\<lambda>e. fst (snd e) = sid) (pendingTimeouts s))"

subsection \<open>Example environments of the watcher\<close>

text \<open>
  A gateway that answers each command by \<open>answer\<close>, with the lock file present or not,
  and with \<^verbatim>\<open>fs.watch\<close> granted or not.
\<close>

definition gatewayEnv :: "(string \<Rightarrow> js_error + string) \<Rightarrow> bool \<Rightarrow> bool \<Rightarrow> Env" where
  "gatewayEnv answer locked watchable =
     \<lparr> execSync = (\<lambda>command cwd. answer command),
       readFileSync = (\<lambda>p. Inl (Error ''ENOENT: no such file or directory'')),
       existsSync = (\<lambda>p. locked \<and> endsWith p ''index.lock''),
       pathJoin = (\<lambda>a b. a @ ''/'' @ b),
       isAbsolute = (\<lambda>p. startsWith p ''/''),
       watch = (\<lambda>p. if watchable then None
                      else Some (Error ''ENOENT: no such file or directory, watch'')),
       dateParse = (\<lambda>s. None),
       dateNow = 0 \<rparr>"

text \<open>No command succeeds: the directory is no work tree.\<close>

definition notARepository :: "string \<Rightarrow> js_error + string" where
  "notARepository command = Inl (Error ''fatal: not a git repository'')"

text \<open>
  A work tree whose first three queries succeed and whose later ones time out.
\<close>

definition timesOutAfterRefresh :: "string \<Rightarrow> js_error + string" where
  "timesOutAfterRefresh command =
     (if command = ''git rev-parse --is-inside-work-tree'' then Inr (''true'' @ [NL])
      else if command = ''git rev-parse --git-dir'' then Inr (''.git'' @ [NL])
      else if command = ''git update-index --refresh --ignore-submodules'' then Inr []
      else Inl (Error ''spawnSync /bin/sh ETIMEDOUT''))"

text \<open>A clean work tree: every query succeeds and prints nothing but the answers asked for.\<close>

definition cleanTree :: "string \<Rightarrow> js_error + string" where
  "cleanTree command =
     (if command = ''git rev-parse --is-inside-work-tree'' then Inr (''true'' @ [NL])
      else if command = ''git rev-parse --git-dir'' then Inr (''.git'' @ [NL])
      else Inr [])"

subsection \<open>Conditions of the refresh check\<close>

text \<open>
  The first query answers \<^verbatim>\<open>true\<close>; the lock file exists in the metadata directory the
  second query resolves; a command's gateway call throws.
\<close>

definition insideWorkTree :: "Env \<Rightarrow> string \<Rightarrow> bool" where
  "insideWorkTree env p =
     (case execSync env ''git rev-parse --is-inside-work-tree'' p of
        Inl e \<Rightarrow> False
      | Inr out \<Rightarrow> trim out = ''true'')"

definition lockFilePresent :: "Env \<Rightarrow> string \<Rightarrow> bool" where
  "lockFilePresent env p =
     (case execSync env ''git rev-parse --git-dir'' p of
        Inl e \<Rightarrow> False
      | Inr out \<Rightarrow>
          existsSync env
            (pathJoin env
               (if isAbsolute env (trim out) then trim out else pathJoin env p (trim out))
               ''index.lock''))"

definition throws :: "Env \<Rightarrow> string \<Rightarrow> string \<Rightarrow> bool" where
  "throws env p command = isl (execSync env command p)"

text \<open>The failure streak of a session id: the count its map entry holds, 0 with no entry.\<close>

definition streak :: "WatcherState \<Rightarrow> string \<Rightarrow> nat" where
  "streak s sid = (case errorCounts s sid of Some c \<Rightarrow> c | None \<Rightarrow> 0)"

subsection \<open>Invariants of a run\<close>

text \<open>
  \<open>invW\<close>: session ids and watcher handles are not repeated; every open watcher is the
  watcher of the session registered under its id; every registered session has its
  watcher open. \<open>invT\<close>: an armed timeout is the one the timer map holds for its session
  id, and the timer map holds timers of registered sessions only.
\<close>

definition invW :: "WatcherState \<Rightarrow> bool" where
  "invW s \<longleftrightarrow>
     distinct (map fst (watchedSessions s)) \<and> distinct (map fst (openWatchers s))
     \<and> (\<forall>h sid. (h, sid) \<in> set (openWatchers s) \<longrightarrow>
           h < nextWatcher s
           \<and> (\<exists>sess. map_of (watchedSessions s) sid = Some sess \<and> watcher sess = Some h))
     \<and> (\<forall>sid sess. map_of (watchedSessions s) sid = Some sess \<longrightarrow>
           (\<exists>h. watcher sess = Some h \<and> (h, sid) \<in> set (openWatchers s)))"

definition invT :: "WatcherState \<Rightarrow> bool" where
  "invT s \<longleftrightarrow>
     distinct (map fst (pendingTimeouts s))
     \<and> (\<forall>t sid d. (t, sid, d) \<in> set (pendingTimeouts s) \<longrightarrow>
           t < nextTimeout s \<and> refreshDebounceTimers s sid = Some t)
     \<and> (\<forall>sid t. refreshDebounceTimers s sid = Some t \<longrightarrow>
           map_of (watchedSessions s) sid \<noteq> None)"

section \<open>The unified-diff parsers\<close>

text \<open>
  \<^verbatim>\<open>console.log\<close>, \<^verbatim>\<open>console.warn\<close> and \<^verbatim>\<open>console.error\<close>, each with the fixed text of its
  message; the parsers return what they printed beside what they parsed.
\<close>

datatype console_line = ConsoleLog string | ConsoleWarn string | ConsoleError string

datatype change_type = Added | Deleted | Modified | Renamed

text \<open>
  ParsedFile (utils/diffParser) and FileDiff (types/diff). FileDiff has the fields of
  ParsedFile and four more. The fields \<^verbatim>\<open>path\<close>, \<^verbatim>\<open>type\<close>, \<^verbatim>\<open>additions\<close> and \<^verbatim>\<open>deletions\<close>
  are named \<open>filePath\<close>, \<open>changeType\<close>, \<open>fileAdditions\<close> and \<open>fileDeletions\<close> here.
\<close>

record ParsedFile =
  filePath :: string
  oldPath :: string
  changeType :: change_type
  fileAdditions :: nat
  fileDeletions :: nat
  isBinary :: bool

record FileDiff = ParsedFile +
  oldValue :: string
  newValue :: string
  tooLarge :: bool
  approxSize :: nat

subsection \<open>More of the regular expressions\<close>

text \<open>
  The dot matches every character but a line terminator. \<^verbatim>\<open>$\<close> is the end of the input,
  and with the \<^verbatim>\<open>m\<close> flag also the place before a line terminator; \<^verbatim>\<open>^\<close> with the \<^verbatim>\<open>m\<close>
  flag is the start of the input and the place after a line terminator.
\<close>

definition isLineTerminator :: "char \<Rightarrow> bool" where
  "isLineTerminator c = (c = NL \<or> c = CR)"

definition dot :: "char \<Rightarrow> bool" where
  "dot c = (\<not> isLineTerminator c)"

definition endOfInput :: "(string \<Rightarrow> 'r option) \<Rightarrow> string \<Rightarrow> 'r option" where
  "endOfInput k s = (if s = [] then k s else None)"

definition endOfLine :: "(string \<Rightarrow> 'r option) \<Rightarrow> string \<Rightarrow> 'r option" where
  "endOfLine k s = (case s of [] \<Rightarrow> k s | c # cs \<Rightarrow> if isLineTerminator c then k s else None)"

text \<open>\<^verbatim>\<open>c+\<close> with nothing captured.\<close>

definition greedyPlus :: "(char \<Rightarrow> bool) \<Rightarrow> (string \<Rightarrow> 'r option) \<Rightarrow> string \<Rightarrow> 'r option" where
  "greedyPlus p k = greedyPlusC p (\<lambda>g. k)"

text \<open>
  \<^verbatim>\<open>s.match(re)\<close> for a pattern that starts with \<^verbatim>\<open>^\<close> under the \<^verbatim>\<open>m\<close> flag: the leftmost
  line start where the attempt succeeds; \<open>b\<close> says whether the position is a line start.
\<close>

fun searchLineStart :: "(string \<Rightarrow> 'r option) \<Rightarrow> bool \<Rightarrow> string \<Rightarrow> 'r option" where
  "searchLineStart m b [] = (if b then m [] else None)"
| "searchLineStart m b (c # cs) =
     (case (if b then m (c # cs) else None) of
        Some r \<Rightarrow> Some r
      | None \<Rightarrow> searchLineStart m (isLineTerminator c) cs)"

subsection \<open>Splitting a diff into file sections\<close>

text \<open>
  \<^verbatim>\<open>diff.match(/diff --git[\s\S]*?(?=diff --git|$)/g)\<close>. \<open>sectionBody\<close> is the lazy
  \<^verbatim>\<open>[\s\S]*?\<close> with its lookahead: it stops before the next \<^verbatim>\<open>diff --git\<close> or at the end of
  the input, and returns what it took and what is left. The result of the match is
  \<^verbatim>\<open>null\<close>, here \<open>None\<close>, when nothing matches.
\<close>

fun sectionBody :: "string \<Rightarrow> string \<times> string" where
  "sectionBody [] = ([], [])"
| "sectionBody (c # cs) =
     (if startsWith (c # cs) ''diff --git'' then ([], c # cs)
      else (case sectionBody cs of (b, r) \<Rightarrow> (c # b, r)))"

lemma sectionBody_length: "length (snd (sectionBody s)) \<le> length s"
  by (induction s) (auto split: prod.splits)

function matchSections :: "string \<Rightarrow> string list" where
  "matchSections [] = []"
| "matchSections (c # cs) =
     (if startsWith (c # cs) ''diff --git''
      then (case sectionBody (drop 10 (c # cs)) of
              (b, r) \<Rightarrow> (''diff --git'' @ b) # matchSections r)
      else matchSections cs)"
  by pat_completeness auto
termination
proof (relation "measure length")
  show "wf (measure length)" by simp
next
  fix c cs
  show "(cs, c # cs) \<in> measure length" by simp
next
  fix c :: char and cs x b r
  assume "(b, r) = sectionBody (drop 10 (c # cs))"
  then have r: "r = snd (sectionBody (drop 10 (c # cs)))" by (metis snd_conv)
  have "length (snd (sectionBody (drop 10 (c # cs)))) \<le> length (drop 10 (c # cs))"
    by (rule sectionBody_length)
  also have "\<dots> \<le> length cs" by simp
  finally have "length r < length (c # cs)" unfolding r by simp
  then show "(r, c # cs) \<in> measure length" by simp
qed

definition fileMatchesOf :: "string \<Rightarrow> string list option" where
  "fileMatchesOf diff' = (case matchSections diff' of [] \<Rightarrow> None | m # ms \<Rightarrow> Some (m # ms))"

text \<open>
  What the sections of a diff are measured against: the text from its first
  \<^verbatim>\<open>diff --git\<close> on, empty when it has none.
\<close>

fun fromFirstHeader :: "string \<Rightarrow> string" where
  "fromFirstHeader [] = []"
| "fromFirstHeader (c # cs) =
     (if startsWith (c # cs) ''diff --git'' then c # cs else fromFirstHeader cs)"

text \<open>
  Iterating a match result with \<^verbatim>\<open>for ... of\<close>, and reading a group of a match result:
  both throw a \<^verbatim>\<open>TypeError\<close> when the result is \<^verbatim>\<open>null\<close>.
\<close>

definition forOf :: "'a list option \<Rightarrow> js_error + 'a list" where
  "forOf xs = (case xs of None \<Rightarrow> Inl (TypeError ''null is not iterable'') | Some l \<Rightarrow> Inr l)"

definition group1 :: "(string \<times> string) option \<Rightarrow> js_error + string" where
  "group1 m = (case m of None \<Rightarrow> Inl (TypeError ''Cannot read properties of null'')
               | Some (g1, g2) \<Rightarrow> Inr g1)"

definition group2 :: "(string \<times> string) option \<Rightarrow> js_error + string" where
  "group2 m = (case m of None \<Rightarrow> Inl (TypeError ''Cannot read properties of null'')
               | Some (g1, g2) \<Rightarrow> Inr g2)"

text \<open>The classification shared by both parsers.\<close>

definition changeTypeOf :: "string \<Rightarrow> change_type" where
  "changeTypeOf fileContent =
     (if includes_str fileContent ''new file mode'' then Added
      else if includes_str fileContent ''deleted file mode'' then Deleted
      else if includes_str fileContent ''rename from'' \<and> includes_str fileContent ''rename to''
      then Renamed
      else Modified)"

subsection \<open>parseUnifiedDiff (CombinedDiffView/DiffViewer)\<close>

text \<open>
  \<^verbatim>\<open>/diff --git a\/(.*?) b\/(.*?)(?:\n|$)/\<close> and \<^verbatim>\<open>/diff --git a\/(.*?) b\/(.*)/\<close>.
\<close>

definition reHeaderLine :: "string \<Rightarrow> (string \<times> string) option" where
  "reHeaderLine =
     search (lit ''diff --git a/'' (lazyStarC dot [] (\<lambda>g1.
             lit '' b/'' (lazyStarC dot [] (\<lambda>g2.
             alt (lit [NL] (\<lambda>r. Some (g1, g2))) (endOfInput (\<lambda>r. Some (g1, g2))))))))"

definition reHeaderLoose :: "string \<Rightarrow> (string \<times> string) option" where
  "reHeaderLoose =
     search (lit ''diff --git a/'' (lazyStarC dot [] (\<lambda>g1.
             lit '' b/'' (greedyStarC dot [] (\<lambda>g2 r. Some (g1, g2))))))"

text \<open>\<^verbatim>\<open>lines.findIndex(line => line.startsWith('@@'))\<close>, \<open>None\<close> for \<open>-1\<close>.\<close>

fun findHunkStart :: "string list \<Rightarrow> nat \<Rightarrow> nat option" where
  "findHunkStart [] i = None"
| "findHunkStart (line # lines) i =
     (if startsWith line ''@@'' then Some i else findHunkStart lines (Suc i))"

text \<open>The counting loop of a section over the size limit: (additions, deletions).\<close>

fun countLoop :: "string list \<Rightarrow> nat \<times> nat \<Rightarrow> nat \<times> nat" where
  "countLoop [] acc = acc"
| "countLoop (line # lines) (additions', deletions') =
     (if startsWith line ''@@'' then countLoop lines (additions', deletions')
      else if startsWith line ''-'' then countLoop lines (additions', Suc deletions')
      else if startsWith line ''+'' then countLoop lines (Suc additions', deletions')
      else countLoop lines (additions', deletions'))"

text \<open>The content loop: (oldLines, newLines, additions, deletions).\<close>

fun contentLoop :: "string list \<Rightarrow> string list \<times> string list \<times> nat \<times> nat
    \<Rightarrow> string list \<times> string list \<times> nat \<times> nat" where
  "contentLoop [] acc = acc"
| "contentLoop (line # lines) (oldLines, newLines, additions', deletions') =
     (if startsWith line ''@@'' then contentLoop lines (oldLines, newLines, additions', deletions')
      else if startsWith line ''-''
      then contentLoop lines (oldLines @ [drop 1 line], newLines, additions', Suc deletions')
      else if startsWith line ''+''
      then contentLoop lines (oldLines, newLines @ [drop 1 line], Suc additions', deletions')
      else if startsWith line '' ''
      then contentLoop lines (oldLines @ [drop 1 line], newLines @ [drop 1 line],
                              additions', deletions')
      else if startsWith line [BS]
      then contentLoop lines (oldLines, newLines, additions', deletions')
      else if line = []
      then contentLoop lines (oldLines @ [[]], newLines @ [[]], additions', deletions')
      else contentLoop lines (oldLines, newLines, additions', deletions'))"

text \<open>
  The body of the loop over the file sections, for one section: the files and the console
  lines it adds.
\<close>

definition parseSection :: "nat \<Rightarrow> string \<Rightarrow> js_error + FileDiff list \<times> console_line list" where
  "parseSection maxBytes fileContent =
     (let m1 = reHeaderLine fileContent;
          fileNameMatch = (if m1 = None then reHeaderLoose fileContent else m1)
      in if fileNameMatch = None
         then Inr ([], [ConsoleWarn ''Could not parse file names from diff:''])
         else
           bindE (group1 fileNameMatch) (\<lambda>oldFileName.
           bindE (group2 fileNameMatch) (\<lambda>newFileName.
           (let binary = includes_str fileContent ''Binary files''
                         \<or> includes_str fileContent ''GIT binary patch'';
                approxSize' = length fileContent;
                tooLarge' = approxSize' > maxBytes;
                type' = changeTypeOf fileContent;
                empty = \<lparr> filePath = newFileName, oldPath = oldFileName, changeType = type',
                          fileAdditions = 0, fileDeletions = 0, isBinary = False,
                          oldValue = [], newValue = [], tooLarge = False,
                          approxSize = approxSize' \<rparr>
            in if binary then Inr ([empty \<lparr> isBinary := True \<rparr>], [])
               else
                 (let lines = split NL fileContent
                  in case findHunkStart lines 0 of
                       None \<Rightarrow> Inr ([empty], [])
                     | Some diffStartIndex \<Rightarrow>
                         if tooLarge'
                         then (case countLoop (drop diffStartIndex lines) (0, 0) of
                                 (additions', deletions') \<Rightarrow>
                                   Inr ([empty \<lparr> fileAdditions := additions',
                                                 fileDeletions := deletions',
                                                 tooLarge := True \<rparr>],
                                        if newFileName = []
                                        then [ConsoleError ''parseUnifiedDiff: File path is empty for diff:'']
                                        else []))
                         else (case contentLoop (drop diffStartIndex lines) ([], [], 0, 0) of
                                 (oldLines, newLines, additions', deletions') \<Rightarrow>
                                   Inr ([empty \<lparr> fileAdditions := additions',
                                                 fileDeletions := deletions',
                                                 oldValue := (if type' = Added then []
                                                              else join [NL] oldLines),
                                                 newValue := (if type' = Deleted then []
                                                              else join [NL] newLines) \<rparr>],
                                        if newFileName = []
                                        then [ConsoleError ''parseUnifiedDiff: File path is empty for diff:'']
                                        else [])))))))"

fun parseSections :: "nat \<Rightarrow> string list \<Rightarrow> FileDiff list \<times> console_line list
    \<Rightarrow> js_error + FileDiff list \<times> console_line list" where
  "parseSections maxBytes [] acc = Inr acc"
| "parseSections maxBytes (fileContent # rest) (files, console) =
     bindE (parseSection maxBytes fileContent) (\<lambda>(fs, cs).
       parseSections maxBytes rest (files @ fs, console @ cs))"

definition parseUnifiedDiff :: "string \<Rightarrow> nat \<Rightarrow> js_error + FileDiff list \<times> console_line list" where
  "parseUnifiedDiff diff' maxBytes =
     (if diff' = [] \<or> length (trim diff') = 0
      then Inr ([], [ConsoleLog ''parseUnifiedDiff: Empty diff input''])
      else
        (let console1 = [ConsoleLog ''parseUnifiedDiff: Parsing diff of length:''];
             fileMatches = fileMatchesOf diff'
         in if fileMatches = None
            then Inr ([], console1 @ [ConsoleWarn ''parseUnifiedDiff: No file matches found in diff''])
            else
              bindE (forOf fileMatches) (\<lambda>sections.
              bindE (parseSections maxBytes sections
                       ([], console1 @ [ConsoleLog ''parseUnifiedDiff: Found''])) (\<lambda>(files, console).
              Inr (files, console @ [ConsoleLog ''parseUnifiedDiff: Parsed''])))))"

subsection \<open>parseFilesFromDiff (utils/diffParser)\<close>

text \<open>
  normalizeFilePath. \<^verbatim>\<open>replace(/^["']|["']$/g, '')\<close> removes a quote that is the first
  character and then a quote that is the last of what is left unscanned;
  \<^verbatim>\<open>replace(/\\(.)/g, '$1')\<close> drops a backslash before a character the dot matches;
  \<^verbatim>\<open>replace(/\\/g, '/')\<close> turns the backslashes that remain into slashes.
\<close>

definition isQuote :: "char \<Rightarrow> bool" where
  "isQuote c = (c = DQ \<or> c = CHR 0x27)"

definition stripQuotes :: "string \<Rightarrow> string" where
  "stripQuotes s =
     (let s1 = (case s of [] \<Rightarrow> [] | c # cs \<Rightarrow> if isQuote c then cs else c # cs)
      in if s1 \<noteq> [] \<and> isQuote (last s1) then butlast s1 else s1)"

fun unescape :: "string \<Rightarrow> string" where
  "unescape (c # d # r) = (if c = BS \<and> dot d then d # unescape r else c # unescape (d # r))"
| "unescape s = s"

definition normalizeFilePath :: "string \<Rightarrow> string" where
  "normalizeFilePath filePath' =
     (if filePath' = [] then []
      else map (\<lambda>c. if c = BS then CHR ''/'' else c) (unescape (stripQuotes filePath')))"

text \<open>
  The patterns of parseFileNameFromDiff, in the order they are tried:
  \<^verbatim>\<open>/^diff --git a\/(.+?) b\/(.+?)$/m\<close>,
  \<^verbatim>\<open>/^diff --git "a\/(.+?)" "b\/(.+?)"$/m\<close>,
  \<^verbatim>\<open>/^diff --git "?a\/(.+?)"? "?b\/(.+?)"?$/m\<close>,
  \<^verbatim>\<open>/^diff --git (.+?) (.+?)$/m\<close>, and the fallback
  \<^verbatim>\<open>/^diff --git\s+(?:"?a\/)?(.+?)(?:"?)\s+(?:"?b\/)?(.+?)(?:"?)$/m\<close>.
\<close>

definition rePlain :: "string \<Rightarrow> (string \<times> string) option" where
  "rePlain s =
     searchLineStart
       (lit ''diff --git a/'' (lazyPlusC dot (\<lambda>g1.
        lit '' b/'' (lazyPlusC dot (\<lambda>g2.
        endOfLine (\<lambda>r. Some (g1, g2)))))))
       True s"

definition reQuoted :: "string \<Rightarrow> (string \<times> string) option" where
  "reQuoted s =
     searchLineStart
       (lit (''diff --git '' @ [DQ] @ ''a/'') (lazyPlusC dot (\<lambda>g1.
        lit ([DQ] @ '' '' @ [DQ] @ ''b/'') (lazyPlusC dot (\<lambda>g2.
        lit [DQ] (endOfLine (\<lambda>r. Some (g1, g2))))))))
       True s"

definition reMixed :: "string \<Rightarrow> (string \<times> string) option" where
  "reMixed s =
     searchLineStart
       (lit ''diff --git '' (optLit [DQ] (lit ''a/'' (lazyPlusC dot (\<lambda>g1.
        optLit [DQ] (lit '' '' (optLit [DQ] (lit ''b/'' (lazyPlusC dot (\<lambda>g2.
        optLit [DQ] (endOfLine (\<lambda>r. Some (g1, g2)))))))))))))
       True s"

definition reBare :: "string \<Rightarrow> (string \<times> string) option" where
  "reBare s =
     searchLineStart
       (lit ''diff --git '' (lazyPlusC dot (\<lambda>g1.
        lit '' '' (lazyPlusC dot (\<lambda>g2.
        endOfLine (\<lambda>r. Some (g1, g2)))))))
       True s"

definition reFallback :: "string \<Rightarrow> (string \<times> string) option" where
  "reFallback s =
     searchLineStart
       (lit ''diff --git'' (greedyPlus isSpace
        (\<lambda>s1. alt (optLit [DQ] (lit ''a/'' (lazyPlusC dot (\<lambda>g1.
                  optLit [DQ] (greedyPlus isSpace
                  (\<lambda>s2. alt (optLit [DQ] (lit ''b/'' (lazyPlusC dot (\<lambda>g2.
                            optLit [DQ] (endOfLine (\<lambda>r. Some (g1, g2)))))))
                           (lazyPlusC dot (\<lambda>g2.
                            optLit [DQ] (endOfLine (\<lambda>r. Some (g1, g2))))) s2))))))
                 (lazyPlusC dot (\<lambda>g1.
                  optLit [DQ] (greedyPlus isSpace
                  (\<lambda>s2. alt (optLit [DQ] (lit ''b/'' (lazyPlusC dot (\<lambda>g2.
                            optLit [DQ] (endOfLine (\<lambda>r. Some (g1, g2)))))))
                           (lazyPlusC dot (\<lambda>g2.
                            optLit [DQ] (endOfLine (\<lambda>r. Some (g1, g2))))) s2)))) s1)))
       True s"

text \<open>The first pattern that matches gives the paths; \<open>None\<close> is \<^verbatim>\<open>null\<close>.\<close>

fun firstMatch :: "(string \<Rightarrow> (string \<times> string) option) list \<Rightarrow> string \<Rightarrow> (string \<times> string) option" where
  "firstMatch [] s = None"
| "firstMatch (pattern # patterns) s =
     (case pattern s of Some m \<Rightarrow> Some m | None \<Rightarrow> firstMatch patterns s)"

definition parseFileNameFromDiff :: "string \<Rightarrow> (string \<times> string) option" where
  "parseFileNameFromDiff diffContent =
     (case firstMatch [rePlain, reQuoted, reMixed, reBare] diffContent of
        Some (g1, g2) \<Rightarrow> Some (normalizeFilePath g1, normalizeFilePath g2)
      | None \<Rightarrow>
          (case reFallback diffContent of
             Some (g1, g2) \<Rightarrow> Some (normalizeFilePath g1, normalizeFilePath g2)
           | None \<Rightarrow> None))"

text \<open>
  \<^verbatim>\<open>fileContent.match(/^\+[^+]/gm)\<close> and \<^verbatim>\<open>/^-[^-]/gm\<close>, counted: the marker at a line
  start followed by any character but the marker (a line terminator included); the two
  characters are consumed. \<open>b\<close> says whether the position is a line start.
\<close>

fun countMarked :: "char \<Rightarrow> bool \<Rightarrow> string \<Rightarrow> nat" where
  "countMarked m b (x # y # r) =
     (if b \<and> x = m \<and> y \<noteq> m then Suc (countMarked m (isLineTerminator y) r)
      else countMarked m (isLineTerminator x) (y # r))"
| "countMarked m b s = 0"

definition parseFileSection :: "string \<Rightarrow> js_error + ParsedFile list \<times> console_line list" where
  "parseFileSection fileContent =
     (let parsedPaths = parseFileNameFromDiff fileContent
      in if parsedPaths = None
         then Inr ([], [ConsoleWarn ''Could not parse file names from diff block:''])
         else
           bindE (group1 parsedPaths) (\<lambda>oldPath'.
           bindE (group2 parsedPaths) (\<lambda>newPath.
           (let binary = includes_str fileContent ''Binary files''
                         \<or> includes_str fileContent ''GIT binary patch''
                         \<or> includes_str fileContent (''differ'' @ [NL]);
                type' = changeTypeOf fileContent;
                additions' = (if \<not> binary then countMarked (CHR ''+'') True fileContent else 0);
                deletions' = (if \<not> binary then countMarked (CHR ''-'') True fileContent else 0);
                finalPath = (if newPath \<noteq> [] then newPath else oldPath')
            in if finalPath = []
               then Inr ([], [ConsoleError ''parseFilesFromDiff: Both old and new paths are empty for diff:''])
               else Inr ([\<lparr> filePath = finalPath, oldPath = oldPath', changeType = type',
                            fileAdditions = additions', fileDeletions = deletions',
                            isBinary = binary \<rparr>], [])))))"

fun parseFileSections :: "string list \<Rightarrow> ParsedFile list \<times> console_line list
    \<Rightarrow> js_error + ParsedFile list \<times> console_line list" where
  "parseFileSections [] acc = Inr acc"
| "parseFileSections (fileContent # rest) (files, console) =
     bindE (parseFileSection fileContent) (\<lambda>(fs, cs).
       parseFileSections rest (files @ fs, console @ cs))"

definition parseFilesFromDiff :: "string \<Rightarrow> js_error + ParsedFile list \<times> console_line list" where
  "parseFilesFromDiff diffContent =
     (if diffContent = [] \<or> length (trim diffContent) = 0
      then Inr ([], [ConsoleLog ''parseFilesFromDiff: Empty diff input''])
      else
        (let console1 = [ConsoleLog ''parseFilesFromDiff: Parsing diff of length:''];
             fileMatches = fileMatchesOf diffContent
         in if fileMatches = None
            then Inr ([], console1 @ [ConsoleWarn ''parseFilesFromDiff: No file matches found in diff''])
            else
              bindE (forOf fileMatches) (\<lambda>sections.
              bindE (parseFileSections sections
                       ([], console1 @ [ConsoleLog ''parseFilesFromDiff: Found''])) (\<lambda>(files, console).
              Inr (files, console @ [ConsoleLog ''parseFilesFromDiff: Successfully parsed''])))))"

definition validateParsedFiles :: "ParsedFile list \<Rightarrow> ParsedFile list" where
  "validateParsedFiles files =
     filter (\<lambda>file. \<not> (filePath file = [] \<or> length (trim (filePath file)) = 0)) files"

subsection \<open>Reading a parser's result\<close>

text \<open>The files and the console lines of a result; none of either when the parser threw.\<close>

definition filesOf :: "js_error + 'a list \<times> console_line list \<Rightarrow> 'a list" where
  "filesOf r = (case r of Inl e \<Rightarrow> [] | Inr (files, console) \<Rightarrow> files)"

definition consoleOf :: "js_error + 'a list \<times> console_line list \<Rightarrow> console_line list" where
  "consoleOf r = (case r of Inl e \<Rightarrow> [] | Inr (files, console) \<Rightarrow> console)"

definition countLine :: "console_line \<Rightarrow> console_line list \<Rightarrow> nat" where
  "countLine l console = length (filter (\<lambda>x. x = l) console)"

subsection \<open>Example diffs\<close>

text \<open>
  Three file sections, the second with a header no pattern reads; and a section with a
  binary marker line followed by lines that look like an addition and a deletion.
\<close>

definition threeSections :: string where
  "threeSections =
     ''diff --git a/x b/x'' @ [NL] @ ''@@ -1 +1 @@'' @ [NL] @ ''-a'' @ [NL] @ ''+b'' @ [NL]
     @ ''diff --git-junk'' @ [NL]
     @ ''diff --git a/y b/y'' @ [NL] @ ''@@ -1 +1 @@'' @ [NL] @ ''-c'' @ [NL] @ ''+d'' @ [NL]"

definition binarySection :: string where
  "binarySection =
     ''diff --git a/i.png b/i.png'' @ [NL]
     @ ''Binary files a/i.png and b/i.png differ'' @ [NL] @ ''+x'' @ [NL] @ ''-y'' @ [NL]"

section \<open>Properties of combineDiffs\<close>

lemma foldl_add_sum_list:
  "foldl (\<lambda>sum d. sum + f d) (a::int) ds = a + sum_list (map f ds)"
  by (induction ds arbitrary: a) simp_all

lemma setAdd_set: "set (setAdd s f) = insert f (set s)"
  by (auto simp: setAdd_def)

lemma setAdd_distinct: "distinct s \<Longrightarrow> distinct (setAdd s f)"
  by (simp add: setAdd_def)

lemma foldl_setAdd_set: "set (foldl setAdd s fs) = set s \<union> set fs"
  by (induction fs arbitrary: s) (simp_all add: setAdd_set)

lemma foldl_setAdd_distinct: "distinct s \<Longrightarrow> distinct (foldl setAdd s fs)"
  by (induction fs arbitrary: s) (simp_all add: setAdd_distinct)

lemma allFiles_set:
  "set (foldl (\<lambda>s d. foldl setAdd s (changedFiles d)) s0 ds)
     = set s0 \<union> (\<Union>d \<in> set ds. set (changedFiles d))"
  by (induction ds arbitrary: s0) (auto simp: foldl_setAdd_set)

lemma allFiles_distinct:
  "distinct s0 \<Longrightarrow> distinct (foldl (\<lambda>s d. foldl setAdd s (changedFiles d)) s0 ds)"
  by (induction ds arbitrary: s0) (simp_all add: foldl_setAdd_distinct)

lemma join_Cons: "join sep (x # xs) = x @ concat (map (\<lambda>y. sep @ y) xs)"
  by (induction xs arbitrary: x) simp_all

lemma at_first: "ds \<noteq> [] \<Longrightarrow> at ds 0 = Some (hd ds)"
  by (cases ds) (simp_all add: at_def)

lemma at_last: "ds \<noteq> [] \<Longrightarrow> at ds (int (length ds) - 1) = Some (last ds)"
  by (simp add: at_def last_conv_nth nat_diff_distrib')

text \<open>
  C10. Applied to the empty list, combineDiffs returns the empty text, all-zero stats, no
  changed files and absent before/after revisions: the reads of the first and of the last
  element go through optional chaining, so the missing elements are not dereferenced.
\<close>

theorem combineDiffs_empty:
  "combineDiffs [] =
     \<lparr> diff = [], stats = \<lparr> additions = 0, deletions = 0, filesChanged = 0 \<rparr>,
       changedFiles = [], beforeHash = None, afterHash = None \<rparr>"
  by (simp add: combineDiffs_def at_def optChain_def)

text \<open>
  C2. For a non-empty list of results, combineDiffs sums additions and deletions, counts
  in filesChanged the distinct paths of the union of the changedFiles lists (which it also
  returns, each path once), joins the texts with a blank line between consecutive inputs,
  and takes beforeHash from the first input and afterHash from the last.
\<close>

theorem combineDiffs_nonempty:
  assumes "diffs \<noteq> []"
  shows "additions (stats (combineDiffs diffs)) = sum_list (map (\<lambda>d. additions (stats d)) diffs)
       \<and> deletions (stats (combineDiffs diffs)) = sum_list (map (\<lambda>d. deletions (stats d)) diffs)
       \<and> filesChanged (stats (combineDiffs diffs)) = int (card (\<Union>d \<in> set diffs. set (changedFiles d)))
       \<and> set (changedFiles (combineDiffs diffs)) = (\<Union>d \<in> set diffs. set (changedFiles d))
       \<and> distinct (changedFiles (combineDiffs diffs))
       \<and> diff (combineDiffs diffs)
            = diff (hd diffs) @ concat (map (\<lambda>d. [NL, NL] @ diff d) (tl diffs))
       \<and> beforeHash (combineDiffs diffs) = beforeHash (hd diffs)
       \<and> afterHash (combineDiffs diffs) = afterHash (last diffs)"
proof -
  let ?all = "foldl (\<lambda>s d. foldl setAdd s (changedFiles d)) [] diffs"
  have s: "set ?all = (\<Union>d \<in> set diffs. set (changedFiles d))"
    by (simp add: allFiles_set)
  have d: "distinct ?all"
    by (simp add: allFiles_distinct)
  have c: "length ?all = card (\<Union>d \<in> set diffs. set (changedFiles d))"
    using s d distinct_card by fastforce
  obtain x xs where x: "diffs = x # xs"
    using assms by (cases diffs) auto
  have j: "join [NL, NL] (map diff diffs)
             = diff (hd diffs) @ concat (map (\<lambda>d. [NL, NL] @ diff d) (tl diffs))"
    unfolding x by (simp add: join_Cons comp_def del: join.simps)
  show ?thesis
    using s d c j at_first [OF assms] at_last [OF assms]
    by (simp add: combineDiffs_def Let_def foldl_add_sum_list optChain_def)
qed

theorem combineDiffs_nonempty_witness:
  "combineDiffs
     [\<lparr> diff = ''x'', stats = \<lparr> additions = 3, deletions = 1, filesChanged = 2 \<rparr>,
        changedFiles = [''a'', ''b''], beforeHash = Some ''r0'', afterHash = Some ''r1'' \<rparr>,
      \<lparr> diff = ''y'', stats = \<lparr> additions = 2, deletions = 0, filesChanged = 2 \<rparr>,
        changedFiles = [''b'', ''c''], beforeHash = Some ''r1'', afterHash = Some ''r2'' \<rparr>]
   = \<lparr> diff = [CHR ''x'', NL, NL, CHR ''y''],
       stats = \<lparr> additions = 5, deletions = 1, filesChanged = 3 \<rparr>,
       changedFiles = [''a'', ''b'', ''c''], beforeHash = Some ''r0'', afterHash = Some ''r2'' \<rparr>"
proof -
  let ?ds = "[\<lparr> diff = ''x'', stats = \<lparr> additions = 3, deletions = 1, filesChanged = 2 \<rparr>,
        changedFiles = [''a'', ''b''], beforeHash = Some ''r0'', afterHash = Some ''r1'' \<rparr>,
      \<lparr> diff = ''y'', stats = \<lparr> additions = 2, deletions = 0, filesChanged = 2 \<rparr>,
        changedFiles = [''b'', ''c''], beforeHash = Some ''r1'', afterHash = Some ''r2'' \<rparr>]"
  have ne: "?ds \<noteq> []" by simp
  have c: "changedFiles (combineDiffs ?ds) = [''a'', ''b'', ''c'']"
    by (simp add: combineDiffs_def setAdd_def)
  have f: "filesChanged (stats (combineDiffs ?ds)) = 3"
    by (simp add: combineDiffs_def setAdd_def)
  show ?thesis
    using combineDiffs_nonempty [OF ne] c f
    by (cases "combineDiffs ?ds"; cases "stats (combineDiffs ?ds)") simp
qed

section \<open>Properties of parseDiffStats\<close>

lemma split_nonempty: "split c s \<noteq> []"
  by (induction s) (auto split: list.splits)

lemma at_last_split: "at (split c s) (int (length (split c s)) - 1) = Some (last (split c s))"
  using at_last [OF split_nonempty] .

lemma split_subset: "l \<in> set (split c s) \<Longrightarrow> set l \<subseteq> set s"
proof (induction s arbitrary: l)
  case Nil
  then show ?case by simp
next
  case (Cons x s)
  show ?case
  proof (cases "x = c")
    case True
    with Cons show ?thesis by auto
  next
    case False
    obtain h t where ht: "split c s = h # t"
      using split_nonempty [of c s] by (cases "split c s") auto
    with Cons False show ?thesis by fastforce
  qed
qed

lemma split_append:
  "split c (a @ b) = butlast (split c a) @ [last (split c a) @ hd (split c b)] @ tl (split c b)"
proof (induction a)
  case Nil
  then show ?case using split_nonempty [of c b] by simp
next
  case (Cons x a)
  obtain h t where ht: "split c a = h # t"
    using split_nonempty [of c a] by (cases "split c a") auto
  show ?case
  proof (cases "x = c")
    case True
    then show ?thesis using Cons ht by simp
  next
    case False
    then show ?thesis using Cons ht by (cases t) simp_all
  qed
qed

lemma last_split_last:
  "t \<noteq> [] \<Longrightarrow> last t \<noteq> c \<Longrightarrow> last (split c t) \<noteq> [] \<and> last (last (split c t)) = last t"
proof (induction t)
  case Nil
  then show ?case by simp
next
  case (Cons x t)
  obtain h r where hr: "split c t = h # r"
    using split_nonempty [of c t] by (cases "split c t") auto
  show ?case
  proof (cases "t = []")
    case True
    with Cons show ?thesis by simp
  next
    case False
    with Cons hr show ?thesis by (cases r) auto
  qed
qed


text \<open>The lines of the specification are the pieces of \<^verbatim>\<open>split('\n')\<close>.\<close>

lemma linesFrom_split:
  "linesFrom cur s = (case split NL s of l # ls \<Rightarrow> (rev cur @ l) # ls)"
proof (induction s arbitrary: cur)
  case Nil
  then show ?case by simp
next
  case (Cons c s)
  obtain h t where ht: "split NL s = h # t"
    using split_nonempty [of NL s] by (cases "split NL s") auto
  show ?case using Cons ht by simp
qed

lemma linesOf_split: "linesOf s = split NL s"
proof -
  obtain h t where ht: "split NL s = h # t"
    using split_nonempty [of NL s] by (cases "split NL s") auto
  show ?thesis by (simp add: linesOf_def linesFrom_split ht)
qed

lemma whiteSpace_isSpace: "whiteSpace = isSpace"
  by (auto simp: fun_eq_iff whiteSpace_def isSpace_def)

lemma lastNonBlankLine_split:
  "lastNonBlankLine s
     = (case filter (\<lambda>l. \<not> list_all isSpace l) (split NL s) of [] \<Rightarrow> [] | l # ls \<Rightarrow> last (l # ls))"
  by (simp add: lastNonBlankLine_def lastLineWhere_def linesOf_split whiteSpace_isSpace)

text \<open>
  The line parseDiffStats reads is the last line that is not blank, without the white
  space at its end (and at its start, when it is the first line).
\<close>

lemma lastNonBlankLine_decomp:
  "\<exists>w1 w2. list_all isSpace w1 \<and> list_all isSpace w2
     \<and> lastNonBlankLine s = w1 @ last (split NL (trim s)) @ w2"
proof (cases "list_all isSpace s")
  case True
  then have d: "dropWhile isSpace (rev s) = []"
    by (simp add: dropWhile_eq_Nil_conv list_all_iff)
  have "trim s = []"
    unfolding trim_def d by simp
  moreover have "filter (\<lambda>l. \<not> list_all isSpace l) (split NL s) = []"
    using True split_subset [of _ NL s] by (auto simp: list_all_iff filter_empty_conv)
  ultimately have "lastNonBlankLine s = [] @ last (split NL (trim s)) @ []"
    by (simp add: lastNonBlankLine_split)
  then have "lastNonBlankLine s = [] @ last (split NL (trim s)) @ []" .
  moreover have "list_all isSpace []" by simp
  ultimately show ?thesis by blast
next
  case False
  define t where "t = rev (dropWhile isSpace (rev s))"
  define q where "q = rev (takeWhile isSpace (rev s))"
  define p where "p = takeWhile isSpace t"
  define m where "m = dropWhile isSpace t"
  have s: "s = t @ q"
    unfolding t_def q_def by (metis rev_append rev_rev_ident takeWhile_dropWhile_id)
  have q: "list_all isSpace q"
    unfolding q_def by (simp add: list_all_iff) (meson set_takeWhileD)
  have tne: "t \<noteq> []"
    using False unfolding t_def by (auto simp: list_all_iff dropWhile_eq_Nil_conv)
  have lt: "\<not> isSpace (last t)"
    using tne unfolding t_def by (simp add: last_rev hd_dropWhile)
  have t: "t = p @ m"
    unfolding p_def m_def by simp
  have p: "list_all isSpace p"
    unfolding p_def by (simp add: list_all_iff) (meson set_takeWhileD)
  have m: "m = trim s"
    unfolding m_def t_def trim_def ..
  have nl: "isSpace NL" by (simp add: isSpace_def)
  have lnl: "last t \<noteq> NL" using lt nl by auto
  have lastt: "last (split NL t) \<noteq> [] \<and> last (last (split NL t)) = last t"
    using last_split_last [OF tne lnl] .
  have nb: "\<not> list_all isSpace (last (split NL t) @ hd (split NL q))"
  proof -
    have "last t \<in> set (last (split NL t))"
      using lastt by (metis last_in_set)
    then show ?thesis using lt by (auto simp: list_all_iff)
  qed
  have blank_q: "\<And>l. l \<in> set (split NL q) \<Longrightarrow> list_all isSpace l"
    using q split_subset [of _ NL q] by (auto simp: list_all_iff)
  have blank_tl: "filter (\<lambda>l. \<not> list_all isSpace l) (tl (split NL q)) = []"
    using blank_q by (auto simp: filter_empty_conv dest: list.set_sel(2) [OF split_nonempty])
  have w2: "list_all isSpace (hd (split NL q))"
    using blank_q [of "hd (split NL q)"] split_nonempty [of NL q] by simp
  have "filter (\<lambda>l. \<not> list_all isSpace l) (split NL s)
          = filter (\<lambda>l. \<not> list_all isSpace l) (butlast (split NL t))
            @ [last (split NL t) @ hd (split NL q)]"
    unfolding s split_append [of NL t q] using nb blank_tl by simp
  moreover have "\<And>xs::string list. (case xs of [] \<Rightarrow> [] | l # ls \<Rightarrow> last (l # ls))
                   = (if xs = [] then [] else last xs)"
    by (simp split: list.splits)
  ultimately have lne: "lastNonBlankLine s = last (split NL t) @ hd (split NL q)"
    by (simp add: lastNonBlankLine_split)
  define w1 where "w1 = (if tl (split NL m) = [] then last (split NL p) else [])"
  have w1: "list_all isSpace w1"
  proof -
    have "last (split NL p) \<in> set (split NL p)"
      using split_nonempty by simp
    then have "list_all isSpace (last (split NL p))"
      using p split_subset [of _ NL p] by (auto simp: list_all_iff)
    then show ?thesis by (simp add: w1_def)
  qed
  have "last (split NL t) = w1 @ last (split NL m)"
  proof (cases "tl (split NL m) = []")
    case True
    then have "split NL m = [hd (split NL m)]"
      using split_nonempty [of NL m] by (cases "split NL m") auto
    then have "last (split NL m) = hd (split NL m)"
      by (metis last.simps)
    then show ?thesis
      unfolding t split_append [of NL p m] using True by (simp add: w1_def)
  next
    case False
    then have "last (split NL m) = last (tl (split NL m))"
      using split_nonempty [of NL m] by (cases "split NL m") auto
    then show ?thesis
      unfolding t split_append [of NL p m] using False by (simp add: w1_def)
  qed
  then have "lastNonBlankLine s = w1 @ last (split NL (trim s)) @ hd (split NL q)"
    using lne m by simp
  then show ?thesis using w1 w2 by blast
qed


lemma startsWith_length: "startsWith x l \<Longrightarrow> length l \<le> length x"
  by (induction x l rule: startsWith.induct) simp_all

lemma startsWith_subset: "startsWith x l \<Longrightarrow> set l \<subseteq> set x"
  by (induction x l rule: startsWith.induct) auto

lemma startsWith_append_blank:
  assumes "list_all isSpace w" and "l \<noteq> []" and "\<not> isSpace (last l)"
  shows "startsWith (x @ w) l = startsWith x l"
  using assms(2,3)
proof (induction x arbitrary: l)
  case Nil
  have "\<not> startsWith w l"
  proof
    assume "startsWith w l"
    then have "last l \<in> set w"
      using startsWith_subset Nil(1) last_in_set by blast
    then show False using assms(1) Nil(2) by (simp add: list_all_iff)
  qed
  then show ?case using Nil(1) by (cases l) simp_all
next
  case (Cons a x)
  then obtain b l' where l: "l = b # l'" by (cases l) auto
  show ?case
  proof (cases "l' = []")
    case True
    then show ?thesis by (simp add: l)
  next
    case False
    then show ?thesis using Cons l by simp
  qed
qed

lemma lit_append_blank:
  assumes "list_all isSpace w" and "l \<noteq> []" and "\<not> isSpace (last l)"
    and "\<And>y. k (y @ w) = k y"
  shows "lit l k (x @ w) = lit l k x"
  using startsWith_append_blank [OF assms(1-3), of x] startsWith_length [of x l] assms(4)
  by (simp add: lit_def)

lemma alt_append_blank:
  assumes "\<And>y. a (y @ w) = a y" and "\<And>y. b (y @ w) = b y"
  shows "alt a b (x @ w) = alt a b x"
  using assms by (simp add: alt_def cong: option.case_cong)

lemma greedyStarC_append_blank:
  assumes "\<And>g y. k g (y @ w) = k g y" and "\<forall>c \<in> set w. \<not> p c"
  shows "greedyStarC p acc k (x @ w) = greedyStarC p acc k x"
proof (induction x arbitrary: acc)
  case Nil
  have "greedyStarC p acc k w = k (rev acc) w"
    using assms(2) by (cases w) simp_all
  then show ?case using assms(1) [of "rev acc" "[]"] by simp
next
  case (Cons c x)
  then show ?case using assms(1) [of "rev acc" "c # x"] by (simp cong: option.case_cong)
qed

lemma greedyPlusC_append_blank:
  assumes "\<And>g y. k g (y @ w) = k g y" and "\<forall>c \<in> set w. \<not> p c"
  shows "greedyPlusC p k (x @ w) = greedyPlusC p k x"
proof (cases x)
  case Nil
  then show ?thesis using assms(2) by (cases w) (simp_all add: greedyPlusC_def)
next
  case (Cons c cs)
  then show ?thesis
    using greedyStarC_append_blank [where k = k and w = w and p = p and acc = "[c]" and x = cs] assms
    by (simp add: greedyPlusC_def)
qed

lemma search_append_blank:
  assumes "\<And>v y. list_all isSpace v \<Longrightarrow> m (y @ v) = m y" and "list_all isSpace w"
  shows "search m (x @ w) = search m x"
proof (induction x)
  case Nil
  have "search m v = m []" if "list_all isSpace v" for v
    using that
  proof (induction v)
    case Nil
    then show ?case by simp
  next
    case (Cons c v)
    have "m (c # v) = m []"
      using assms(1) [OF Cons(2), of "[]"] by simp
    then show ?case using Cons by (simp split: option.splits)
  qed
  then show ?case using assms(2) by simp
next
  case (Cons c x)
  have "m ((c # x) @ w) = m (c # x)"
    using assms by blast
  then show ?case using Cons by (simp cong: option.case_cong)
qed

lemma search_blank_prefix:
  assumes "\<And>c cs. isSpace c \<Longrightarrow> m (c # cs) = None" and "list_all isSpace w"
  shows "search m (w @ x) = search m x"
  using assms(2) by (induction w) (simp_all add: assms(1))

lemma isSpace_not_digit: "isSpace c \<Longrightarrow> \<not> isDigit c"
  by (auto simp: isSpace_def isDigit_def)

text \<open>The shape shared by the three patterns of parseDiffStats.\<close>

lemma stat_pattern_blank:
  assumes "list_all isSpace w1" and "list_all isSpace w2"
    and "l1 \<noteq> []" and "\<not> isSpace (last l1)" and "l2 \<noteq> []" and "\<not> isSpace (last l2)"
  shows "search (greedyPlusC isDigit (\<lambda>g. lit l1 (optLit ''s'' (lit l2 (\<lambda>r. Some g))))) (w1 @ x @ w2)
       = search (greedyPlusC isDigit (\<lambda>g. lit l1 (optLit ''s'' (lit l2 (\<lambda>r. Some g))))) x"
proof -
  let ?k = "\<lambda>g. lit l1 (optLit ''s'' (lit l2 (\<lambda>r. Some g)))"
  let ?m = "greedyPlusC isDigit ?k"
  have s: "\<not> isSpace (last ''s'')" by (simp add: isSpace_def)
  have k: "?k g (y @ v) = ?k g y" if v: "list_all isSpace v" for g y v
  proof -
    have a: "lit l2 (\<lambda>r. Some g) (y @ v) = lit l2 (\<lambda>r. Some g) y" for y
      using lit_append_blank [where w = v and l = l2 and k = "\<lambda>r. Some g" and x = y] v assms(5,6)
      by simp
    have b: "lit ''s'' (lit l2 (\<lambda>r. Some g)) (y @ v) = lit ''s'' (lit l2 (\<lambda>r. Some g)) y" for y
      using lit_append_blank [where w = v and l = "''s''" and k = "lit l2 (\<lambda>r. Some g)" and x = y]
        v s a
      by simp
    have c: "optLit ''s'' (lit l2 (\<lambda>r. Some g)) (y @ v) = optLit ''s'' (lit l2 (\<lambda>r. Some g)) y" for y
      unfolding optLit_def
      using alt_append_blank [where a = "lit ''s'' (lit l2 (\<lambda>r. Some g))"
          and b = "lit l2 (\<lambda>r. Some g)" and w = v and x = y] a b
      by simp
    show ?thesis
      using lit_append_blank [where w = v and l = l1
          and k = "optLit ''s'' (lit l2 (\<lambda>r. Some g))" and x = y] v assms(3,4) c
      by simp
  qed
  have m: "?m (y @ v) = ?m y" if v: "list_all isSpace v" for y v
  proof -
    have "\<forall>c \<in> set v. \<not> isDigit c"
      using v isSpace_not_digit by (auto simp: list_all_iff)
    then show ?thesis
      using greedyPlusC_append_blank [where k = ?k and w = v and p = isDigit and x = y] k [OF v]
      by blast
  qed
  have n: "?m (c # cs) = None" if "isSpace c" for c cs
    using isSpace_not_digit [OF that] by (simp add: greedyPlusC_def)
  have "search ?m (w1 @ x @ w2) = search ?m (x @ w2)"
    using search_blank_prefix [where m = ?m and w = w1 and x = "x @ w2"] n assms(1) by simp
  also have "\<dots> = search ?m x"
    using search_append_blank [where m = ?m and w = w2 and x = x] m assms(2) by simp
  finally show ?thesis .
qed

text \<open>The group handed on by a pattern of this shape is a non-empty run of digits.\<close>

lemma greedyStarC_group:
  assumes "greedyStarC p acc k x = Some r" and "\<And>g y. k g y = Some r \<Longrightarrow> r = g"
  shows "\<exists>g. r = rev acc @ g \<and> list_all p g"
  using assms(1)
proof (induction x arbitrary: acc)
  case Nil
  then show ?case using assms(2) by fastforce
next
  case (Cons c x)
  show ?case
  proof (cases "p c \<and> greedyStarC p (c # acc) k x \<noteq> None")
    case True
    then have "greedyStarC p (c # acc) k x = Some r"
      using Cons(2) by auto
    then obtain g where "r = rev (c # acc) @ g" "list_all p g"
      using Cons(1) by blast
    then have "r = rev acc @ (c # g) \<and> list_all p (c # g)"
      using True by simp
    then show ?thesis by blast
  next
    case False
    then have "k (rev acc) (c # x) = Some r"
      using Cons(2) by (auto split: if_splits)
    then show ?thesis using assms(2) by fastforce
  qed
qed

lemma search_Some: "search m x = Some r \<Longrightarrow> \<exists>y. m y = Some r"
  by (induction x) (auto split: option.splits)

lemma stat_pattern_group:
  assumes "search (greedyPlusC isDigit (\<lambda>g. lit l1 (optLit ''s'' (lit l2 (\<lambda>r. Some g))))) x = Some r"
  shows "r \<noteq> [] \<and> list_all isDigit r"
proof -
  let ?k = "\<lambda>g. lit l1 (optLit ''s'' (lit l2 (\<lambda>r. Some g)))"
  obtain y where y: "greedyPlusC isDigit ?k y = Some r"
    using search_Some [OF assms] by blast
  then obtain c cs where c: "y = c # cs" "isDigit c" "greedyStarC isDigit [c] ?k cs = Some r"
    by (auto simp: greedyPlusC_def split: list.splits if_splits)
  have "\<And>g y. ?k g y = Some r \<Longrightarrow> r = g"
    by (auto simp: lit_def optLit_def alt_def split: if_splits option.splits)
  then obtain g where "r = rev [c] @ g" "list_all isDigit g"
    using greedyStarC_group [where p = isDigit and acc = "[c]" and k = ?k and x = cs and r = r] c(3)
    by blast
  then show ?thesis using c(2) by simp
qed

lemma parseInt_digits:
  assumes "r \<noteq> []" and "list_all isDigit r"
  shows "parseInt r = Some (decimal r)"
proof -
  obtain c cs where r: "r = c # cs" using assms(1) by (cases r) auto
  have c: "isDigit c" using assms(2) r by simp
  have t: "dropWhile isSpace r = r"
    using c isSpace_not_digit r by auto
  have sg: "\<not> startsWith r ''-''" "\<not> startsWith r ''+''"
    using c by (auto simp: r isDigit_def)
  have hx: "\<not> startsWith r ''0x''" "\<not> startsWith r ''0X''"
  proof -
    have "\<not> isDigit CHR ''x''" "\<not> isDigit CHR ''X''" by (simp_all add: isDigit_def)
    then show "\<not> startsWith r ''0x''" "\<not> startsWith r ''0X''"
      using assms(2) startsWith_subset [of r "''0x''"] startsWith_subset [of r "''0X''"]
      by (auto simp: list_all_iff)
  qed
  have tw: "takeWhile isDigit r = r"
    using assms(2) by (simp add: list_all_iff takeWhile_eq_all_conv [THEN iffD2])
  show ?thesis
    using assms(1) by (simp add: parseInt_def t sg hx tw)
qed

lemma groupOrZero_stat_pattern:
  assumes "m = search (greedyPlusC isDigit (\<lambda>g. lit l1 (optLit ''s'' (lit l2 (\<lambda>r. Some g))))) x"
  shows "groupOrZero m = Inr (case map_option decimal m of None \<Rightarrow> 0 | Some n \<Rightarrow> n)"
proof (cases m)
  case None
  then show ?thesis by (simp add: groupOrZero_def)
next
  case (Some r)
  then have "r \<noteq> [] \<and> list_all isDigit r"
    using stat_pattern_group [of l1 l2 x r] assms by simp
  then show ?thesis
    using Some by (simp add: groupOrZero_def parseInt_digits toCount_def)
qed

text \<open>
  What a pattern of this shape finds is the number before the words, as the specification
  has it: the attempt at a position succeeds exactly when a run of digits starts there and
  the words follow the whole run.
\<close>

lemma startsWith_append:
  "startsWith x (a @ b) = (startsWith x a \<and> startsWith (drop (length a) x) b)"
  by (induction x a rule: startsWith.induct) simp_all

lemma stat_chain:
  "lit l1 (optLit ''s'' (lit l2 (\<lambda>r. Some g))) rest
     = (if startsWith rest (l1 @ l2) \<or> startsWith rest (l1 @ ''s'' @ l2) then Some g else None)"
proof -
  have c: "startsWith y (CHR ''s'' # l2) = (startsWith y ''s'' \<and> startsWith (drop 1 y) l2)" for y
    by (cases y) simp_all
  show ?thesis
    by (auto simp: lit_def optLit_def alt_def startsWith_append c split: option.splits)
qed

lemma greedyStarC_digits:
  assumes "\<And>g rest. k g rest = (if K rest then Some g else None)"
    and "\<And>c cs. K (c # cs) \<Longrightarrow> \<not> p c"
  shows "greedyStarC p acc k x
       = (if K (dropWhile p x) then Some (rev acc @ takeWhile p x) else None)"
proof (induction x arbitrary: acc)
  case Nil
  then show ?case by (simp add: assms(1))
next
  case (Cons c x)
  show ?case
  proof (cases "p c")
    case True
    then have "\<not> K (c # x)" using assms(2) by blast
    then show ?thesis using True Cons by (simp add: assms(1))
  next
    case False
    then show ?thesis by (simp add: assms(1))
  qed
qed

lemma greedyPlusC_digits:
  assumes "\<And>g rest. k g rest = (if K rest then Some g else None)"
    and "\<And>c cs. K (c # cs) \<Longrightarrow> \<not> p c"
  shows "greedyPlusC p k x
       = (if takeWhile p x \<noteq> [] \<and> K (dropWhile p x) then Some (takeWhile p x) else None)"
proof (cases x)
  case Nil
  then show ?thesis by (simp add: greedyPlusC_def)
next
  case (Cons c cs)
  show ?thesis
    using greedyStarC_digits [where k = k and K = K and p = p and acc = "[c]" and x = cs, OF assms]
    by (simp add: greedyPlusC_def Cons)
qed

text \<open>The digits, numbers and prefixes of the specification are those of the sources.\<close>

lemma isDecimalDigit_isDigit: "isDecimalDigit = isDigit"
  by (auto simp: fun_eq_iff isDecimalDigit_def isDigit_def)

lemma digitValue_digitVal: "isDigit c \<Longrightarrow> digitValue c = digitVal c"
  unfolding isDigit_def
  by (elim disjE) (simp_all add: digitValue_def digitVal_def isDigit_def)

lemma numberOf_decimal: "list_all isDigit ds \<Longrightarrow> numberOf ds = decimal ds"
proof -
  have "list_all isDigit ds \<Longrightarrow>
          foldl (\<lambda>n c. 10 * n + digitValue c) a ds = foldl (\<lambda>n c. 10 * n + digitVal c) a ds" for a
    by (induction ds arbitrary: a) (simp_all add: digitValue_digitVal)
  then show "list_all isDigit ds \<Longrightarrow> numberOf ds = decimal ds"
    by (simp add: numberOf_def decimal_def)
qed

lemma hasPrefix_startsWith: "hasPrefix s p = startsWith s p"
  by (induction s p rule: startsWith.induct) (auto simp: hasPrefix_def)

lemma numberBefore_Cons:
  "numberBefore words (c # cs) =
     (if takeWhile isDigit (c # cs) \<noteq> []
         \<and> list_ex (startsWith (dropWhile isDigit (c # cs))) words
      then Some (decimal (takeWhile isDigit (c # cs)))
      else numberBefore words cs)"
proof -
  have d: "drop (length (takeWhile isDigit y)) y = dropWhile isDigit y" for y :: string
    by (induction y) simp_all
  have t: "list_all isDigit (takeWhile isDigit (c # cs))"
    by (simp add: list_all_iff) (meson set_takeWhileD)
  have h: "hasPrefix y = startsWith y" for y
    by (simp add: fun_eq_iff hasPrefix_startsWith)
  show ?thesis
    unfolding numberBefore.simps Let_def isDecimalDigit_isDigit d h numberOf_decimal [OF t] ..
qed

lemma stat_pattern_number:
  assumes "l1 \<noteq> []" and "\<not> isDigit (hd l1)"
  shows "map_option decimal
           (search (greedyPlusC isDigit (\<lambda>g. lit l1 (optLit ''s'' (lit l2 (\<lambda>r. Some g))))) x)
         = numberBefore [l1 @ l2, l1 @ ''s'' @ l2] x"
proof -
  let ?K = "\<lambda>rest. startsWith rest (l1 @ l2) \<or> startsWith rest (l1 @ ''s'' @ l2)"
  let ?k = "\<lambda>g. lit l1 (optLit ''s'' (lit l2 (\<lambda>r. Some g)))"
  have K: "\<not> isDigit c" if "?K (c # cs)" for c cs
  proof -
    obtain a l1' where l1: "l1 = a # l1'" using assms(1) by (cases l1) auto
    have "c = a" using that by (auto simp: l1)
    then show ?thesis using assms(2) by (simp add: l1)
  qed
  have m: "greedyPlusC isDigit ?k y
       = (if takeWhile isDigit y \<noteq> [] \<and> ?K (dropWhile isDigit y)
          then Some (takeWhile isDigit y) else None)" for y
    by (rule greedyPlusC_digits [where K = ?K]) (simp_all add: stat_chain K del: startsWith.simps)
  show ?thesis
  proof (induction x)
    case Nil
    then show ?case by (simp add: m)
  next
    case (Cons c x)
    show ?case
      using Cons
      by (simp add: m numberBefore_Cons
          del: numberBefore.simps startsWith.simps takeWhile.simps dropWhile.simps
          split: option.splits)
  qed
qed

lemma parseDiffStats_refines_spec:
  "parseDiffStats s = Inr (parseStatSummary_nonblank s)"
proof -
  obtain w1 w2 where w: "list_all isSpace w1" "list_all isSpace w2"
    and l: "lastNonBlankLine s = w1 @ last (split NL (trim s)) @ w2"
    using lastNonBlankLine_decomp by blast
  let ?line = "last (split NL (trim s))"
  let ?spec = "lastNonBlankLine s"
  have f: "reFilesChanged ?line = reFilesChanged ?spec"
    unfolding l reFilesChanged_def
    by (rule stat_pattern_blank [OF w, symmetric]) (simp_all add: isSpace_def)
  have a: "reInsertions ?line = reInsertions ?spec"
    unfolding l reInsertions_def
    by (rule stat_pattern_blank [OF w, symmetric]) (simp_all add: isSpace_def)
  have d: "reDeletions ?line = reDeletions ?spec"
    unfolding l reDeletions_def
    by (rule stat_pattern_blank [OF w, symmetric]) (simp_all add: isSpace_def)
  have nf: "map_option decimal (reFilesChanged ?spec)
              = numberBefore ['' file changed'', '' files changed''] ?spec"
    using stat_pattern_number [of "'' file''" "'' changed''" ?spec]
    by (simp add: reFilesChanged_def isDigit_def)
  have na: "map_option decimal (reInsertions ?spec)
              = numberBefore ['' insertion(+)'', '' insertions(+)''] ?spec"
    using stat_pattern_number [of "'' insertion''" "''(+)''" ?spec]
    by (simp add: reInsertions_def isDigit_def)
  have nd: "map_option decimal (reDeletions ?spec)
              = numberBefore ['' deletion(-)'', '' deletions(-)''] ?spec"
    using stat_pattern_number [of "'' deletion''" "''(-)''" ?spec]
    by (simp add: reDeletions_def isDigit_def)
  have gf: "groupOrZero (reFilesChanged ?spec)
              = Inr (countOf ['' file changed'', '' files changed''] ?spec)"
    unfolding countOf_def nf [symmetric]
    by (rule groupOrZero_stat_pattern [of _ "'' file''" "'' changed''" ?spec])
       (simp add: reFilesChanged_def)
  have ga: "groupOrZero (reInsertions ?spec)
              = Inr (countOf ['' insertion(+)'', '' insertions(+)''] ?spec)"
    unfolding countOf_def na [symmetric]
    by (rule groupOrZero_stat_pattern [of _ "'' insertion''" "''(+)''" ?spec])
       (simp add: reInsertions_def)
  have gd: "groupOrZero (reDeletions ?spec)
              = Inr (countOf ['' deletion(-)'', '' deletions(-)''] ?spec)"
    unfolding countOf_def nd [symmetric]
    by (rule groupOrZero_stat_pattern [of _ "'' deletion''" "''(-)''" ?spec])
       (simp add: reDeletions_def)
  show ?thesis
    by (simp add: parseDiffStats_def parseStatSummary_nonblank_def statsOfLine_def Let_def
        at_last_split f a d gf ga gd bindE_def)
qed

lemmas stat_defs = parseDiffStats_def trim_def isSpace_def at_def reFilesChanged_def
  reInsertions_def reDeletions_def greedyPlusC_def isDigit_def lit_def optLit_def alt_def
  groupOrZero_def toCount_def parseInt_def decimal_def digitVal_def bindE_def

text \<open>
  C3, as the sources have it. parseDiffStats never ends abnormally: on every input it
  returns the three optional groups, an absent group counting 0, of the last line of its
  input that is not made of white space only. On the summary line of three groups it
  returns \<open>{3, 45, 12}\<close>, on the empty string \<open>{0, 0, 0}\<close>, and with the deletions group
  absent \<open>{1, 2, 0}\<close>. On an output of several lines the groups are those of the last line
  that is not blank, whatever the lines before it hold.
\<close>

theorem parseDiffStats_summary:
  "parseDiffStats s = Inr (parseStatSummary_nonblank s)
   \<and> parseDiffStats ''3 files changed, 45 insertions(+), 12 deletions(-)''
       = Inr \<lparr> additions = 45, deletions = 12, filesChanged = 3 \<rparr>
   \<and> parseDiffStats [] = Inr \<lparr> additions = 0, deletions = 0, filesChanged = 0 \<rparr>
   \<and> parseDiffStats ''1 file changed, 2 insertions(+)''
       = Inr \<lparr> additions = 2, deletions = 0, filesChanged = 1 \<rparr>
   \<and> parseDiffStats ''10 files changed, 678 insertions(+), 90 deletions(-)''
       = Inr \<lparr> additions = 678, deletions = 90, filesChanged = 10 \<rparr>
   \<and> parseDiffStats ('' a.txt | 4 +++-'' @ [NL] @ '' b.txt | 2 +-'' @ [NL]
         @ '' 2 files changed, 4 insertions(+), 2 deletions(-)'' @ [NL])
       = Inr \<lparr> additions = 4, deletions = 2, filesChanged = 2 \<rparr>
   \<and> parseDiffStats (''9 files changed, 9 insertions(+)'' @ [NL]
         @ ''1 file changed, 2 deletions(-)'' @ [NL] @ [NL])
       = Inr \<lparr> additions = 0, deletions = 2, filesChanged = 1 \<rparr>
   \<and> parseStatSummary_nonblank (''9 files changed, 9 insertions(+)'' @ [NL]
         @ ''1 file changed, 2 deletions(-)'' @ [NL] @ [NL])
       = \<lparr> additions = 0, deletions = 2, filesChanged = 1 \<rparr>"
proof -
  have a: "parseDiffStats ''3 files changed, 45 insertions(+), 12 deletions(-)''
       = Inr \<lparr> additions = 45, deletions = 12, filesChanged = 3 \<rparr>"
    by (simp add: stat_defs)
  have b: "parseDiffStats [] = Inr \<lparr> additions = 0, deletions = 0, filesChanged = 0 \<rparr>"
    by (simp add: stat_defs)
  have c: "parseDiffStats ''1 file changed, 2 insertions(+)''
       = Inr \<lparr> additions = 2, deletions = 0, filesChanged = 1 \<rparr>"
    by (simp add: stat_defs)
  have c': "parseDiffStats ''10 files changed, 678 insertions(+), 90 deletions(-)''
       = Inr \<lparr> additions = 678, deletions = 90, filesChanged = 10 \<rparr>"
    by (simp add: stat_defs)
  have d: "parseDiffStats ('' a.txt | 4 +++-'' @ [NL] @ '' b.txt | 2 +-'' @ [NL]
         @ '' 2 files changed, 4 insertions(+), 2 deletions(-)'' @ [NL])
       = Inr \<lparr> additions = 4, deletions = 2, filesChanged = 2 \<rparr>"
    by (simp add: stat_defs)
  have e: "parseDiffStats (''9 files changed, 9 insertions(+)'' @ [NL]
         @ ''1 file changed, 2 deletions(-)'' @ [NL] @ [NL])
       = Inr \<lparr> additions = 0, deletions = 2, filesChanged = 1 \<rparr>"
    by (simp add: stat_defs)
  have f: "parseStatSummary_nonblank (''9 files changed, 9 insertions(+)'' @ [NL]
         @ ''1 file changed, 2 deletions(-)'' @ [NL] @ [NL])
       = \<lparr> additions = 0, deletions = 2, filesChanged = 1 \<rparr>"
    using parseDiffStats_refines_spec [of "''9 files changed, 9 insertions(+)'' @ [NL]
         @ ''1 file changed, 2 deletions(-)'' @ [NL] @ [NL]"] e
    by simp
  show ?thesis
    using parseDiffStats_refines_spec [of s] a b c c' d e f by simp
qed

text \<open>
  C3 as the claim states it fails: a last line of two spaces is not empty, and read as the
  claim words it the summary would be \<open>{0, 0, 0}\<close>; parseDiffStats trims its input first
  and returns the groups of the line before, \<open>{1, 2, 0}\<close>.
\<close>

theorem parseDiffStats_skips_blank_line:
  "lastNonEmptyLine (''1 file changed, 2 insertions(+)'' @ [NL] @ ''  '') = ''  ''
   \<and> parseStatSummary_literal (''1 file changed, 2 insertions(+)'' @ [NL] @ ''  '')
       = \<lparr> additions = 0, deletions = 0, filesChanged = 0 \<rparr>
   \<and> parseDiffStats (''1 file changed, 2 insertions(+)'' @ [NL] @ ''  '')
       = Inr \<lparr> additions = 2, deletions = 0, filesChanged = 1 \<rparr>"
proof -
  have l: "lastNonEmptyLine (''1 file changed, 2 insertions(+)'' @ [NL] @ ''  '') = ''  ''"
    by (simp add: lastNonEmptyLine_def lastLineWhere_def linesOf_def)
  have z: "statsOfLine ''  '' = \<lparr> additions = 0, deletions = 0, filesChanged = 0 \<rparr>"
    by (simp add: statsOfLine_def countOf_def isDecimalDigit_def)
  have c: "parseDiffStats (''1 file changed, 2 insertions(+)'' @ [NL] @ ''  '')
       = Inr \<lparr> additions = 2, deletions = 0, filesChanged = 1 \<rparr>"
    by (simp add: stat_defs)
  show ?thesis
    using l z c by (simp add: parseStatSummary_literal_def)
qed

section \<open>Properties of the diff capture functions\<close>


text \<open>
  What getDiffStats computes when the diffstat call returns: the parsed tracked stats,
  plus for each untracked file that can be read the number of pieces its content splits
  into at line breaks (0 for an empty file) added to additions, deletions untouched, and
  every untracked file counted in filesChanged.
\<close>

definition lineCountOf :: "Env \<Rightarrow> string \<Rightarrow> string \<Rightarrow> int" where
  "lineCountOf env wt file =
     (if file = [] \<or> length (trim file) = 0 then 0
      else case readFileSync env (pathJoin env wt (trim file)) of
             Inl e \<Rightarrow> 0
           | Inr content \<Rightarrow> if content = [] then 0 else int (length (splitLines content)))"

lemma countUntrackedAdditions_sum:
  "countUntrackedAdditions env wt files acc
     = acc + sum_list (map (lineCountOf env wt) files)"
  by (induction files arbitrary: acc)
     (simp_all add: lineCountOf_def Let_def split: sum.splits)

lemma getDiffStats_formula:
  assumes "execSync env ''git diff --stat HEAD'' wt = Inr output"
    and "parseDiffStats output = Inr tracked"
  shows "getDiffStats env wt =
           \<lparr> additions = additions tracked
                           + sum_list (map (lineCountOf env wt) (getUntrackedFiles env wt)),
             deletions = deletions tracked,
             filesChanged = filesChanged tracked
                           + int (length (getUntrackedFiles env wt)) \<rparr>"
  using assms
  by (simp add: getDiffStats_def Let_def countUntrackedAdditions_sum)

text \<open>
  C6. One modified tracked file (3 insertions, 1 deletion) and one untracked file of five
  lines. With the five lines each ended by a line feed, the untracked file counts as 6
  additions and the stats are \<open>{9, 1, 2}\<close>; only when the last line has no line feed
  do they come to \<open>{8, 1, 2}\<close>.
\<close>

theorem captureWorkingDirectoryDiff_five_lines:
  "map_sum id stats
     (captureWorkingDirectoryDiff
        (untrackedFileEnv (''1'' @ [NL] @ ''2'' @ [NL] @ ''3'' @ [NL] @ ''4'' @ [NL] @ ''5'' @ [NL]))
        ''/repo'')
     = Inr \<lparr> additions = 9, deletions = 1, filesChanged = 2 \<rparr>
   \<and> map_sum id stats
     (captureWorkingDirectoryDiff
        (untrackedFileEnv (''1'' @ [NL] @ ''2'' @ [NL] @ ''3'' @ [NL] @ ''4'' @ [NL] @ ''5''))
        ''/repo'')
     = Inr \<lparr> additions = 8, deletions = 1, filesChanged = 2 \<rparr>"
proof -
  have a: "getDiffStats
      (untrackedFileEnv (''1'' @ [NL] @ ''2'' @ [NL] @ ''3'' @ [NL] @ ''4'' @ [NL] @ ''5'' @ [NL]))
      ''/repo'' = \<lparr> additions = 9, deletions = 1, filesChanged = 2 \<rparr>"
    by (simp add: getDiffStats_def untrackedFileEnv_def getUntrackedFiles_def stat_defs Let_def)
  have b: "getDiffStats
      (untrackedFileEnv (''1'' @ [NL] @ ''2'' @ [NL] @ ''3'' @ [NL] @ ''4'' @ [NL] @ ''5''))
      ''/repo'' = \<lparr> additions = 8, deletions = 1, filesChanged = 2 \<rparr>"
    by (simp add: getDiffStats_def untrackedFileEnv_def getUntrackedFiles_def stat_defs Let_def)
  show ?thesis
    using a b by (simp add: captureWorkingDirectoryDiff_def Let_def)
qed

text \<open>
  C9, as the sources have it. getCommitDiff has no abnormal outcome: when the gateway
  call for the patch throws, it returns the ordinary empty result. getCommitHistory, when
  its log call throws, throws \<^verbatim>\<open>Git error: <message>\<close> if the message contains \<^verbatim>\<open>fatal:\<close> or
  \<^verbatim>\<open>error:\<close>, and returns the empty sequence for every other failure; it also returns
  the empty sequence when the log call prints nothing but white space (no results).
\<close>

theorem fetch_failure_policy:
  "(\<exists>r. getCommitDiff env wt commitHash = Inr r)
   \<and> (\<forall>e. execSync env (''git show --format= --patch -m '' @ commitHash) wt = Inl e
        \<longrightarrow> getCommitDiff env wt commitHash
              = Inr \<lparr> diff = [], stats = \<lparr> additions = 0, deletions = 0, filesChanged = 0 \<rparr>,
                      changedFiles = [], beforeHash = None, afterHash = None \<rparr>)
   \<and> (\<forall>e. execSync env (''git log --format='' @ [DQ] @ ''%H|%s|%ai|%an'' @ [DQ] @ '' --numstat -n '' @ showNat limit
                          @ '' HEAD --not '' @ mainBranch @ '' --'') wt = Inl e
        \<longrightarrow> getCommitHistory env wt limit mainBranch
              = (if includes_str (errorMessageOf e) ''fatal:''
                    \<or> includes_str (errorMessageOf e) ''error:''
                 then Inl (Error (''Git error: '' @ errorMessageOf e))
                 else Inr []))
   \<and> (\<forall>out. execSync env (''git log --format='' @ [DQ] @ ''%H|%s|%ai|%an'' @ [DQ] @ '' --numstat -n '' @ showNat limit
                          @ '' HEAD --not '' @ mainBranch @ '' --'') wt = Inr out
              \<and> trim out = []
        \<longrightarrow> getCommitHistory env wt limit mainBranch = Inr [])"
proof -
  have a: "\<exists>r. getCommitDiff env wt commitHash = Inr r"
    by (auto simp: getCommitDiff_def Let_def split: sum.splits)
  have b: "getCommitDiff env wt commitHash
              = Inr \<lparr> diff = [], stats = \<lparr> additions = 0, deletions = 0, filesChanged = 0 \<rparr>,
                      changedFiles = [], beforeHash = None, afterHash = None \<rparr>"
    if "execSync env (''git show --format= --patch -m '' @ commitHash) wt = Inl e" for e
    using that by (auto simp: getCommitDiff_def Let_def split: sum.splits)
  have c: "getCommitHistory env wt limit mainBranch
              = (if includes_str (errorMessageOf e) ''fatal:''
                    \<or> includes_str (errorMessageOf e) ''error:''
                 then Inl (Error (''Git error: '' @ errorMessageOf e))
                 else Inr [])"
    if "execSync env (''git log --format='' @ [DQ] @ ''%H|%s|%ai|%an'' @ [DQ] @ '' --numstat -n '' @ showNat limit
                          @ '' HEAD --not '' @ mainBranch @ '' --'') wt = Inl e" for e
    using that by (simp add: getCommitHistory_def Let_def)
  have d: "getCommitHistory env wt limit mainBranch = Inr []"
    if "execSync env (''git log --format='' @ [DQ] @ ''%H|%s|%ai|%an'' @ [DQ] @ '' --numstat -n '' @ showNat limit
                          @ '' HEAD --not '' @ mainBranch @ '' --'') wt = Inr out"
      and "trim out = []" for out
  proof -
    have t: "trim [] = []" by (simp add: trim_def)
    show ?thesis
      using that
      by (simp add: getCommitHistory_def Let_def logLineStep_def flushStats_def fillMessages_def t
          split: sum.splits)
  qed
  show ?thesis using a b c d by blast
qed

theorem fetch_failure_policy_witness:
  "getCommitDiff (failingEnv ''fatal: bad object deadbeef'') ''/repo'' ''deadbeef''
     = Inr \<lparr> diff = [], stats = \<lparr> additions = 0, deletions = 0, filesChanged = 0 \<rparr>,
             changedFiles = [], beforeHash = None, afterHash = None \<rparr>
   \<and> getCommitHistory (failingEnv ''fatal: bad revision'') ''/repo'' 50 ''main''
     = Inl (Error ''Git error: fatal: bad revision'')
   \<and> getCommitHistory silentEnv ''/repo'' 50 ''main'' = Inr []"
proof -
  have d: "execSync silentEnv
             (''git log --format='' @ [DQ] @ ''%H|%s|%ai|%an'' @ [DQ] @ '' --numstat -n '' @ showNat 50
               @ '' HEAD --not '' @ ''main'' @ '' --'') ''/repo''
           = Inr []" "trim [] = []"
    by (simp_all add: silentEnv_def trim_def)
  have a: "execSync (failingEnv ''fatal: bad object deadbeef'')
             (''git show --format= --patch -m '' @ ''deadbeef'') ''/repo''
           = Inl (Error ''fatal: bad object deadbeef'')"
    by (simp add: failingEnv_def)
  have b: "execSync (failingEnv ''fatal: bad revision'')
             (''git log --format='' @ [DQ] @ ''%H|%s|%ai|%an'' @ [DQ] @ '' --numstat -n '' @ showNat 50
               @ '' HEAD --not '' @ ''main'' @ '' --'') ''/repo''
           = Inl (Error ''fatal: bad revision'')"
    by (simp add: failingEnv_def)
  have c: "includes_str (errorMessageOf (Error ''fatal: bad revision'')) ''fatal:''"
    by (simp add: errorMessageOf_def)
  show ?thesis
    using fetch_failure_policy [of "failingEnv ''fatal: bad object deadbeef''" "''/repo''"
        "''deadbeef''" 50 "''main''"]
      fetch_failure_policy [of "failingEnv ''fatal: bad revision''" "''/repo''"
        "''deadbeef''" 50 "''main''"]
      fetch_failure_policy [of silentEnv "''/repo''" "''deadbeef''" 50 "''main''"] a b c d
    by (simp add: errorMessageOf_def)
qed

text \<open>
  C9 as the claim states it fails: with a gateway whose every command throws,
  getCommitDiff returns the empty result and throws nothing, and getCommitHistory returns
  the empty sequence when the thrown message has neither \<^verbatim>\<open>fatal:\<close> nor \<^verbatim>\<open>error:\<close> in it.
\<close>

theorem fetch_failure_swallowed:
  "getCommitDiff (failingEnv ''fatal: bad object deadbeef'') ''/repo'' ''deadbeef''
     = Inr \<lparr> diff = [], stats = \<lparr> additions = 0, deletions = 0, filesChanged = 0 \<rparr>,
             changedFiles = [], beforeHash = None, afterHash = None \<rparr>
   \<and> getCommitHistory (failingEnv ''spawnSync /bin/sh ETIMEDOUT'') ''/repo'' 50 ''main''
     = Inr []"
  by (simp add: getCommitDiff_def getCommitHistory_def failingEnv_def errorMessageOf_def)

section \<open>Properties of the watcher\<close>

lemma inv_initial: "invW initialState" "invT initialState"
  by (simp_all add: invW_def invT_def initialState_def)

lemma distinct_fst_unique:
  "distinct (map fst xs) \<Longrightarrow> (a, b) \<in> set xs \<Longrightarrow> (a, c) \<in> set xs \<Longrightarrow> b = c"
  by (induction xs) (auto simp: rev_image_eqI)

lemma invW_stopWatching: "invW s \<Longrightarrow> invW (stopWatching s sid)"
proof (cases "map_of (watchedSessions s) sid")
  case None
  assume "invW s"
  then show ?thesis using None by (simp add: stopWatching_def)
next
  case (Some session)
  assume i: "invW s"
  then obtain h where h: "watcher session = Some h" "(h, sid) \<in> set (openWatchers s)"
    using Some unfolding invW_def by blast
  have d: "distinct (map fst (openWatchers s))" using i by (simp add: invW_def)
  have ws: "watchedSessions (stopWatching s sid) = AList.delete sid (watchedSessions s)"
    using Some by (simp add: stopWatching_def closeWatcher_def clearTimeout_def Let_def h
        split: option.splits)
  have ow: "openWatchers (stopWatching s sid) = filter (\<lambda>e. fst e \<noteq> h) (openWatchers s)"
    using Some by (simp add: stopWatching_def closeWatcher_def clearTimeout_def Let_def h
        split: option.splits)
  have nw: "nextWatcher (stopWatching s sid) = nextWatcher s"
    using Some by (simp add: stopWatching_def closeWatcher_def clearTimeout_def Let_def h
        split: option.splits)
  show ?thesis
    unfolding invW_def ws ow nw
  proof (intro conjI allI impI)
    show "distinct (map fst (AList.delete sid (watchedSessions s)))"
      using i by (simp add: invW_def AList.distinct_delete)
    show "distinct (map fst (filter (\<lambda>e. fst e \<noteq> h) (openWatchers s)))"
      using d by (simp add: distinct_map_filter)
  next
    fix h' sid'
    assume a: "(h', sid') \<in> set (filter (\<lambda>e. fst e \<noteq> h) (openWatchers s))"
    then have m: "(h', sid') \<in> set (openWatchers s)" and ne: "h' \<noteq> h" by auto
    from i m obtain sess where sess: "h' < nextWatcher s"
      "map_of (watchedSessions s) sid' = Some sess" "watcher sess = Some h'"
      unfolding invW_def by blast
    have "sid' \<noteq> sid" using sess(2,3) Some h(1) ne by auto
    then show "h' < nextWatcher s" 
      and "\<exists>sess. map_of (AList.delete sid (watchedSessions s)) sid' = Some sess \<and> watcher sess = Some h'"
      using sess by simp_all
  next
    fix sid' sess
    assume a: "map_of (AList.delete sid (watchedSessions s)) sid' = Some sess"
    then have ne: "sid' \<noteq> sid" by (auto simp: AList.delete_conv')
    then have "map_of (watchedSessions s) sid' = Some sess" using a by simp
    then obtain h' where h': "watcher sess = Some h'" "(h', sid') \<in> set (openWatchers s)"
      using i unfolding invW_def by blast
    have "h' \<noteq> h" using distinct_fst_unique [OF d h'(2)] h(2) ne by auto
    then show "\<exists>x. watcher sess = Some x \<and> (x, sid') \<in> set (filter (\<lambda>e. fst e \<noteq> h) (openWatchers s))"
      using h' by auto
  qed
qed


lemma stopWatching_absent: "map_of (watchedSessions s) sid = None \<Longrightarrow> stopWatching s sid = s"
  by (simp add: stopWatching_def)

lemma stopWatching_fields:
  assumes "map_of (watchedSessions s) sid = Some session"
  shows "watchedSessions (stopWatching s sid) = AList.delete sid (watchedSessions s)"
    and "openWatchers (stopWatching s sid)
           = (case watcher session of None \<Rightarrow> openWatchers s
              | Some h \<Rightarrow> filter (\<lambda>e. fst e \<noteq> h) (openWatchers s))"
    and "pendingTimeouts (stopWatching s sid)
           = (case refreshDebounceTimers s sid of None \<Rightarrow> pendingTimeouts s
              | Some t \<Rightarrow> filter (\<lambda>e. fst e \<noteq> t) (pendingTimeouts s))"
    and "refreshDebounceTimers (stopWatching s sid) = (refreshDebounceTimers s)(sid := None)"
    and "nextWatcher (stopWatching s sid) = nextWatcher s"
    and "nextTimeout (stopWatching s sid) = nextTimeout s"
    and "errorCounts (stopWatching s sid) = errorCounts s"
    and "emitted (stopWatching s sid) = emitted s"
  using assms
  by (auto simp: stopWatching_def closeWatcher_def clearTimeout_def Let_def
      split: option.splits)

lemma invT_stopWatching: "invT s \<Longrightarrow> invT (stopWatching s sid)"
proof (cases "map_of (watchedSessions s) sid")
  case None
  assume "invT s"
  then show ?thesis using None by (simp add: stopWatching_absent)
next
  case (Some session)
  assume i: "invT s"
  note f = stopWatching_fields [OF Some]
  show ?thesis
    unfolding invT_def f(1,3,4,6)
  proof (intro conjI allI impI)
    show "distinct (map fst (case refreshDebounceTimers s sid of None \<Rightarrow> pendingTimeouts s
              | Some t \<Rightarrow> filter (\<lambda>e. fst e \<noteq> t) (pendingTimeouts s)))"
      using i by (simp add: invT_def distinct_map_filter split: option.splits)
  next
    fix t sid' d
    assume a: "(t, sid', d) \<in> set (case refreshDebounceTimers s sid of None \<Rightarrow> pendingTimeouts s
              | Some t \<Rightarrow> filter (\<lambda>e. fst e \<noteq> t) (pendingTimeouts s))"
    then have m: "(t, sid', d) \<in> set (pendingTimeouts s)"
      by (auto split: option.splits)
    then have o: "t < nextTimeout s" "refreshDebounceTimers s sid' = Some t"
      using i unfolding invT_def by blast+
    have "sid' \<noteq> sid" using a o(2) by (auto split: option.splits)
    then show "t < nextTimeout s" and "((refreshDebounceTimers s)(sid := None)) sid' = Some t"
      using o by simp_all
  next
    fix sid' t
    assume a: "((refreshDebounceTimers s)(sid := None)) sid' = Some t"
    then have ne: "sid' \<noteq> sid" and "refreshDebounceTimers s sid' = Some t"
      by (auto split: if_splits)
    then have "map_of (watchedSessions s) sid' \<noteq> None"
      using i unfolding invT_def by blast
    then show "map_of (AList.delete sid (watchedSessions s)) sid' \<noteq> None"
      using ne by simp
  qed
qed

text \<open>After stopWatching nothing is left of the session id.\<close>

lemma stopWatching_clears:
  assumes "invW s" and "invT s"
  shows "map_of (watchedSessions (stopWatching s sid)) sid = None"
    and "\<forall>h. (h, sid) \<notin> set (openWatchers (stopWatching s sid))"
    and "refreshDebounceTimers (stopWatching s sid) sid = None"
    and "\<forall>t d. (t, sid, d) \<notin> set (pendingTimeouts (stopWatching s sid))"
proof -
  have w: "invW (stopWatching s sid)" and t: "invT (stopWatching s sid)"
    using assms invW_stopWatching invT_stopWatching by blast+
  show a: "map_of (watchedSessions (stopWatching s sid)) sid = None"
  proof (cases "map_of (watchedSessions s) sid")
    case None
    then show ?thesis by (simp add: stopWatching_absent)
  next
    case (Some session)
    then show ?thesis by (simp add: stopWatching_fields(1) AList.delete_conv')
  qed
  show "\<forall>h. (h, sid) \<notin> set (openWatchers (stopWatching s sid))"
    using w a unfolding invW_def by fastforce
  show b: "refreshDebounceTimers (stopWatching s sid) sid = None"
    using t a unfolding invT_def by fastforce
  show "\<forall>t d. (t, sid, d) \<notin> set (pendingTimeouts (stopWatching s sid))"
    using t b unfolding invT_def by fastforce
qed

lemma startWatching_fields:
  assumes "watch env path = None"
  shows "watchedSessions (startWatching env s sid path)
           = AList.update sid \<lparr> sessionId = sid, worktreePath = path,
               watcher = Some (nextWatcher (stopWatching s sid)),
               lastModified = dateNow env, pendingRefresh = False \<rparr>
               (watchedSessions (stopWatching s sid))"
    and "openWatchers (startWatching env s sid path)
           = openWatchers (stopWatching s sid) @ [(nextWatcher (stopWatching s sid), sid)]"
    and "nextWatcher (startWatching env s sid path) = Suc (nextWatcher (stopWatching s sid))"
    and "pendingTimeouts (startWatching env s sid path) = pendingTimeouts (stopWatching s sid)"
    and "refreshDebounceTimers (startWatching env s sid path)
           = refreshDebounceTimers (stopWatching s sid)"
    and "nextTimeout (startWatching env s sid path) = nextTimeout (stopWatching s sid)"
    and "errorCounts (startWatching env s sid path) = errorCounts (stopWatching s sid)"
    and "emitted (startWatching env s sid path) = emitted (stopWatching s sid)"
  using assms by (simp_all add: startWatching_def Let_def)

lemma startWatching_failed:
  "watch env path = Some e \<Longrightarrow> startWatching env s sid path = stopWatching s sid"
  by (simp add: startWatching_def)

lemma invW_startWatching:
  assumes "invW s" and "invT s"
  shows "invW (startWatching env s sid path)"
proof (cases "watch env path")
  case (Some e)
  then show ?thesis using assms invW_stopWatching by (simp add: startWatching_failed)
next
  case None
  let ?s1 = "stopWatching s sid"
  have w: "invW ?s1" using assms invW_stopWatching by blast
  note c = stopWatching_clears [OF assms, of sid]
  note f = startWatching_fields [OF None, of s sid]
  have fresh: "\<forall>h' sid'. (h', sid') \<in> set (openWatchers ?s1) \<longrightarrow> h' < nextWatcher ?s1"
    using w unfolding invW_def by blast
  show ?thesis
    unfolding invW_def f(1,2,3)
  proof (intro conjI allI impI)
    show "distinct (map fst (AList.update sid \<lparr> sessionId = sid, worktreePath = path,
               watcher = Some (nextWatcher ?s1), lastModified = dateNow env,
               pendingRefresh = False \<rparr> (watchedSessions ?s1)))"
      using w by (simp add: invW_def AList.distinct_update)
    show "distinct (map fst (openWatchers ?s1 @ [(nextWatcher ?s1, sid)]))"
      using w fresh by (fastforce simp: invW_def)
  next
    fix h sid'
    assume a: "(h, sid') \<in> set (openWatchers ?s1 @ [(nextWatcher ?s1, sid)])"
    show "h < Suc (nextWatcher ?s1)"
      using a fresh by fastforce
    show "\<exists>sess. map_of (AList.update sid \<lparr> sessionId = sid, worktreePath = path,
               watcher = Some (nextWatcher ?s1), lastModified = dateNow env,
               pendingRefresh = False \<rparr> (watchedSessions ?s1)) sid' = Some sess
             \<and> watcher sess = Some h"
    proof (cases "(h, sid') \<in> set (openWatchers ?s1)")
      case True
      then have ne: "sid' \<noteq> sid" using c(2) by blast
      obtain sess where "map_of (watchedSessions ?s1) sid' = Some sess" "watcher sess = Some h"
        using True w unfolding invW_def by blast
      then show ?thesis using ne by (simp add: AList.update_conv')
    next
      case False
      then have "h = nextWatcher ?s1" "sid' = sid" using a by auto
      then show ?thesis by (simp add: AList.update_conv')
    qed
  next
    fix sid' sess
    assume a: "map_of (AList.update sid \<lparr> sessionId = sid, worktreePath = path,
               watcher = Some (nextWatcher ?s1), lastModified = dateNow env,
               pendingRefresh = False \<rparr> (watchedSessions ?s1)) sid' = Some sess"
    show "\<exists>h. watcher sess = Some h
            \<and> (h, sid') \<in> set (openWatchers ?s1 @ [(nextWatcher ?s1, sid)])"
    proof (cases "sid' = sid")
      case True
      then show ?thesis using a by (auto simp: AList.update_conv')
    next
      case False
      then have "map_of (watchedSessions ?s1) sid' = Some sess"
        using a by (simp add: AList.update_conv')
      then show ?thesis using w unfolding invW_def by fastforce
    qed
  qed
qed

lemma invT_startWatching:
  assumes "invT s"
  shows "invT (startWatching env s sid path)"
proof (cases "watch env path")
  case (Some e)
  then show ?thesis using assms invT_stopWatching by (simp add: startWatching_failed)
next
  case None
  have t: "invT (stopWatching s sid)" using assms invT_stopWatching by blast
  note f = startWatching_fields [OF None, of s sid]
  show ?thesis
    using t unfolding invT_def f(1,4,5,6) by (auto simp: AList.update_conv')
qed


text \<open>Changes that leave the watchers, or the timers, as they are.\<close>

lemma invW_cong:
  assumes "invW s"
    and "distinct (map fst (watchedSessions s'))"
    and "openWatchers s' = openWatchers s" and "nextWatcher s' = nextWatcher s"
    and "\<And>sid. map_option watcher (map_of (watchedSessions s') sid)
               = map_option watcher (map_of (watchedSessions s) sid)"
  shows "invW s'"
  unfolding invW_def assms(3,4)
proof (intro conjI allI impI)
  show "distinct (map fst (watchedSessions s'))" by (rule assms(2))
  show "distinct (map fst (openWatchers s))" using assms(1) by (simp add: invW_def)
next
  fix h sid
  assume "(h, sid) \<in> set (openWatchers s)"
  then obtain sess where o: "h < nextWatcher s" "map_of (watchedSessions s) sid = Some sess"
    "watcher sess = Some h"
    using assms(1) unfolding invW_def by blast
  then show "h < nextWatcher s" by simp
  from assms(5) [of sid] o(2,3)
  show "\<exists>sess. map_of (watchedSessions s') sid = Some sess \<and> watcher sess = Some h"
    by (cases "map_of (watchedSessions s') sid") auto
next
  fix sid sess
  assume a: "map_of (watchedSessions s') sid = Some sess"
  with assms(5) [of sid] obtain sess0 where s0: "map_of (watchedSessions s) sid = Some sess0"
    "watcher sess0 = watcher sess"
    by (cases "map_of (watchedSessions s) sid") auto
  obtain h where "watcher sess0 = Some h" "(h, sid) \<in> set (openWatchers s)"
    using assms(1) s0(1) unfolding invW_def by blast
  then show "\<exists>h. watcher sess = Some h \<and> (h, sid) \<in> set (openWatchers s)"
    using s0(2) by auto
qed

lemma invT_cong:
  assumes "invT s"
    and "pendingTimeouts s' = pendingTimeouts s" and "nextTimeout s' = nextTimeout s"
    and "refreshDebounceTimers s' = refreshDebounceTimers s"
    and "\<And>sid. map_of (watchedSessions s) sid \<noteq> None \<Longrightarrow> map_of (watchedSessions s') sid \<noteq> None"
  shows "invT s'"
  using assms(1,5) unfolding invT_def assms(2,3,4) by blast

lemma map_of_map_entry_watcher:
  "map_option watcher (map_of (AList.map_entry sid (\<lambda>session. session \<lparr> pendingRefresh := b \<rparr>) al) k)
     = map_option watcher (map_of al k)"
  by (simp add: AList.map_of_map_entry split: option.splits)

lemma invW_distinct: "invW s \<Longrightarrow> distinct (map fst (watchedSessions s))"
  by (simp add: invW_def)

lemma invW_setPendingRefresh:
  assumes "invW s"
  shows "invW (setPendingRefresh s sid b)"
  by (rule invW_cong [OF assms])
     (simp_all add: setPendingRefresh_def invW_distinct [OF assms] AList.distinct_map_entry
        map_of_map_entry_watcher)

lemma invT_setPendingRefresh:
  assumes "invT s"
  shows "invT (setPendingRefresh s sid b)"
  by (rule invT_cong [OF assms])
     (auto simp: setPendingRefresh_def AList.map_of_map_entry split: option.splits)

lemma scheduleRefreshCheckWithDelay_fields:
  shows "watchedSessions (scheduleRefreshCheckWithDelay s sid delayMs) = watchedSessions s"
    and "openWatchers (scheduleRefreshCheckWithDelay s sid delayMs) = openWatchers s"
    and "nextWatcher (scheduleRefreshCheckWithDelay s sid delayMs) = nextWatcher s"
    and "pendingTimeouts (scheduleRefreshCheckWithDelay s sid delayMs)
           = (case refreshDebounceTimers s sid of None \<Rightarrow> pendingTimeouts s
              | Some t \<Rightarrow> filter (\<lambda>e. fst e \<noteq> t) (pendingTimeouts s))
             @ [(nextTimeout s, sid, delayMs)]"
    and "refreshDebounceTimers (scheduleRefreshCheckWithDelay s sid delayMs)
           = (refreshDebounceTimers s)(sid \<mapsto> nextTimeout s)"
    and "nextTimeout (scheduleRefreshCheckWithDelay s sid delayMs) = Suc (nextTimeout s)"
    and "errorCounts (scheduleRefreshCheckWithDelay s sid delayMs) = errorCounts s"
    and "emitted (scheduleRefreshCheckWithDelay s sid delayMs) = emitted s"
  by (simp_all add: scheduleRefreshCheckWithDelay_def setTimeout_def clearTimeout_def Let_def
      split: option.splits)

lemma invW_schedule:
  assumes "invW s"
  shows "invW (scheduleRefreshCheckWithDelay s sid delayMs)"
  by (rule invW_cong [OF assms])
     (simp_all add: scheduleRefreshCheckWithDelay_fields invW_distinct [OF assms])

lemma invT_schedule:
  assumes "invT s" and "map_of (watchedSessions s) sid \<noteq> None"
  shows "invT (scheduleRefreshCheckWithDelay s sid delayMs)"
  unfolding invT_def scheduleRefreshCheckWithDelay_fields
proof (intro conjI allI impI)
  let ?old = "case refreshDebounceTimers s sid of None \<Rightarrow> pendingTimeouts s
              | Some t \<Rightarrow> filter (\<lambda>e. fst e \<noteq> t) (pendingTimeouts s)"
  have sub: "set ?old \<subseteq> set (pendingTimeouts s)" by (auto split: option.splits)
  have fresh: "\<forall>e \<in> set ?old. fst e < nextTimeout s"
    using assms(1) sub unfolding invT_def by fastforce
  have "distinct (map fst ?old)"
    using assms(1) by (simp add: invT_def distinct_map_filter split: option.splits)
  then show "distinct (map fst (?old @ [(nextTimeout s, sid, delayMs)]))"
    using fresh by fastforce
  {
    fix t sid' d
    assume a: "(t, sid', d) \<in> set (?old @ [(nextTimeout s, sid, delayMs)])"
    show "t < Suc (nextTimeout s)"
      using a fresh by fastforce
    show "((refreshDebounceTimers s)(sid \<mapsto> nextTimeout s)) sid' = Some t"
    proof (cases "(t, sid', d) \<in> set ?old")
      case True
      then have o: "refreshDebounceTimers s sid' = Some t"
        using assms(1) sub unfolding invT_def by blast
      have "sid' \<noteq> sid" using True o by (auto split: option.splits)
      then show ?thesis using o by simp
    next
      case False
      then show ?thesis using a by auto
    qed
  }
  {
    fix sid' t
    assume "((refreshDebounceTimers s)(sid \<mapsto> nextTimeout s)) sid' = Some t"
    then show "map_of (watchedSessions s) sid' \<noteq> None"
      using assms unfolding invT_def by (cases "sid' = sid") auto
  }
qed

lemma invW_handleFileChange: "invW s \<Longrightarrow> invW (handleFileChange env s sid filename eventType)"
proof -
  assume i: "invW s"
  have "invW (s \<lparr> watchedSessions := AList.update sid
          (session \<lparr> lastModified := dateNow env, pendingRefresh := True \<rparr>) (watchedSessions s) \<rparr>)"
    if "map_of (watchedSessions s) sid = Some session" for session
    by (rule invW_cong [OF i])
       (use that in \<open>auto simp: invW_distinct [OF i] AList.distinct_update AList.update_conv'\<close>)
  then show ?thesis
    using i by (auto simp: handleFileChange_def scheduleRefreshCheck_def Let_def invW_schedule
        split: option.splits)
qed

lemma invT_handleFileChange: "invT s \<Longrightarrow> invT (handleFileChange env s sid filename eventType)"
proof -
  assume i: "invT s"
  have "invT (scheduleRefreshCheckWithDelay (s \<lparr> watchedSessions := AList.update sid
          (session \<lparr> lastModified := dateNow env, pendingRefresh := True \<rparr>) (watchedSessions s) \<rparr>)
          sid DEBOUNCE_MS)"
    if "map_of (watchedSessions s) sid = Some session" for session
  proof (rule invT_schedule)
    show "invT (s \<lparr> watchedSessions := AList.update sid
          (session \<lparr> lastModified := dateNow env, pendingRefresh := True \<rparr>) (watchedSessions s) \<rparr>)"
      by (rule invT_cong [OF i]) (simp_all add: AList.update_conv')
  qed (simp add: AList.update_conv')
  then show ?thesis
    using i by (auto simp: handleFileChange_def scheduleRefreshCheck_def Let_def
        split: option.splits)
qed

lemma inv_watchCallback:
  "invW s \<Longrightarrow> invW (watchCallback env s h eventType filename)"
  "invT s \<Longrightarrow> invT (watchCallback env s h eventType filename)"
  by (auto simp: watchCallback_def invW_handleFileChange invT_handleFileChange
      split: option.splits)


lemma invW_errorCounts: "invW s \<Longrightarrow> invW (s \<lparr> errorCounts := m \<rparr>)"
  by (simp add: invW_def del: map_of_eq_Some_iff)

lemma invT_errorCounts: "invT s \<Longrightarrow> invT (s \<lparr> errorCounts := m \<rparr>)"
  by (simp add: invT_def)

lemma invW_emitted: "invW s \<Longrightarrow> invW (s \<lparr> emitted := m \<rparr>)"
  by (simp add: invW_def del: map_of_eq_Some_iff)

lemma invT_emitted: "invT s \<Longrightarrow> invT (s \<lparr> emitted := m \<rparr>)"
  by (simp add: invT_def)

lemma setPendingRefresh_dom:
  "map_of (watchedSessions (setPendingRefresh s sid b)) k \<noteq> None
     \<longleftrightarrow> map_of (watchedSessions s) k \<noteq> None"
  by (auto simp: setPendingRefresh_def AList.map_of_map_entry split: option.splits)

lemma inv_retryWithBackoff:
  assumes "map_of (watchedSessions s) sid \<noteq> None"
  shows "invW s \<Longrightarrow> invW (retryWithBackoff s sid)"
    and "invT s \<Longrightarrow> invT (retryWithBackoff s sid)"
proof -
  let ?s1 = "s \<lparr> errorCounts := (errorCounts s)(sid \<mapsto>
                (case errorCounts s sid of Some c \<Rightarrow> c | None \<Rightarrow> 0) + 1) \<rparr>"
  have r: "retryWithBackoff s sid
             = scheduleRefreshCheckWithDelay (setPendingRefresh ?s1 sid True) sid
                 (min (BASE_BACKOFF_MS * 2 ^ ((case errorCounts s sid of Some c \<Rightarrow> c | None \<Rightarrow> 0) + 1 - 1))
                    MAX_BACKOFF_MS)"
    by (simp add: retryWithBackoff_def getBackoffDelay_def Let_def)
  show "invW s \<Longrightarrow> invW (retryWithBackoff s sid)"
    unfolding r by (intro invW_schedule invW_setPendingRefresh invW_errorCounts)
  have d: "map_of (watchedSessions (setPendingRefresh ?s1 sid True)) sid \<noteq> None"
    using assms setPendingRefresh_dom [of ?s1 sid True sid] by auto
  show "invT s \<Longrightarrow> invT (retryWithBackoff s sid)"
    unfolding r
    by (rule invT_schedule [OF _ d]) (intro invT_setPendingRefresh invT_errorCounts)
qed

lemma inv_performRefreshCheck:
  shows "invW s \<Longrightarrow> invW (performRefreshCheck env s sid)"
    and "invT s \<Longrightarrow> invT (performRefreshCheck env s sid)"
proof -
  have d: "map_of (watchedSessions (setPendingRefresh s sid False)) sid \<noteq> None"
    if "map_of (watchedSessions s) sid = Some session" for session
    using that setPendingRefresh_dom [of s sid False sid] by auto
  show "invW s \<Longrightarrow> invW (performRefreshCheck env s sid)"
    using d
    by (auto simp: performRefreshCheck_def Let_def resetBackoff_def
        intro!: inv_retryWithBackoff(1) invW_setPendingRefresh invW_errorCounts invW_emitted
        split: option.splits sum.splits)
  show "invT s \<Longrightarrow> invT (performRefreshCheck env s sid)"
    using d
    by (auto simp: performRefreshCheck_def Let_def resetBackoff_def
        intro!: inv_retryWithBackoff(2) invT_setPendingRefresh invT_errorCounts invT_emitted
        split: option.splits sum.splits)
qed

lemma invW_timers:
  "invW s \<Longrightarrow> invW (s \<lparr> pendingTimeouts := p, refreshDebounceTimers := m \<rparr>)"
  by (simp add: invW_def del: map_of_eq_Some_iff)

lemma inv_fireTimeout:
  shows "invW s \<Longrightarrow> invW (fireTimeout env s t)"
    and "invT s \<Longrightarrow> invT (fireTimeout env s t)"
proof -
  show "invW s \<Longrightarrow> invW (fireTimeout env s t)"
    by (auto simp: fireTimeout_def clearTimeout_def Let_def
        intro!: inv_performRefreshCheck(1) invW_timers split: option.splits)
  show "invT s \<Longrightarrow> invT (fireTimeout env s t)"
  proof (cases "map_of (pendingTimeouts s) t")
    case None
    assume "invT s"
    then show ?thesis using None by (simp add: fireTimeout_def)
  next
    case (Some e)
    assume i: "invT s"
    obtain sid d where e: "e = (sid, d)" by (cases e)
    have m: "(t, sid, d) \<in> set (pendingTimeouts s)"
      using Some e by (simp add: map_of_SomeD)
    let ?s2 = "s \<lparr> pendingTimeouts := filter (\<lambda>e. fst e \<noteq> t) (pendingTimeouts s),
                   refreshDebounceTimers := (refreshDebounceTimers s)(sid := None) \<rparr>"
    have "invT ?s2"
      unfolding invT_def
    proof (intro conjI allI impI)
      show "distinct (map fst (pendingTimeouts ?s2))"
        using i by (simp add: invT_def distinct_map_filter)
    next
      fix t' sid' d'
      assume a: "(t', sid', d') \<in> set (pendingTimeouts ?s2)"
      then have o: "t' \<noteq> t" "(t', sid', d') \<in> set (pendingTimeouts s)" by auto
      then have p: "t' < nextTimeout s" "refreshDebounceTimers s sid' = Some t'"
        using i unfolding invT_def by blast+
      have "refreshDebounceTimers s sid = Some t"
        using i m unfolding invT_def by blast
      then have "sid' \<noteq> sid" using p(2) o(1) by auto
      then show "t' < nextTimeout ?s2" "refreshDebounceTimers ?s2 sid' = Some t'"
        using p by simp_all
    next
      fix sid' t'
      assume "refreshDebounceTimers ?s2 sid' = Some t'"
      then have "refreshDebounceTimers s sid' = Some t'" by (auto split: if_splits)
      then show "map_of (watchedSessions ?s2) sid' \<noteq> None"
        using i unfolding invT_def by simp
    qed
    then show ?thesis
      using Some e by (simp add: fireTimeout_def clearTimeout_def Let_def inv_performRefreshCheck(2))
  qed
qed

lemma inv_foldl_stopWatching:
  "invW s \<Longrightarrow> invT s \<Longrightarrow> invW (foldl stopWatching s ids) \<and> invT (foldl stopWatching s ids)"
  by (induction ids arbitrary: s) (simp_all add: invW_stopWatching invT_stopWatching)

lemma inv_step:
  assumes "invW s" and "invT s"
  shows "invW (step s ev) \<and> invT (step s ev)"
proof -
  obtain env e where ev: "ev = (env, e)" by (cases ev)
  show ?thesis
    unfolding ev using assms
    by (cases e)
       (simp_all add: invW_startWatching invT_startWatching invW_stopWatching invT_stopWatching
          stopAll_def inv_foldl_stopWatching inv_watchCallback inv_fireTimeout)
qed

lemma inv_foldl_step:
  "invW s \<Longrightarrow> invT s \<Longrightarrow> invW (foldl step s evs) \<and> invT (foldl step s evs)"
  by (induction evs arbitrary: s) (simp_all add: inv_step)

lemma inv_run: "invW (run evs) \<and> invT (run evs)"
  unfolding run_def by (rule inv_foldl_step) (rule inv_initial)+

lemma distinct_singleton_set: "set xs = {h} \<Longrightarrow> distinct xs \<Longrightarrow> xs = [h]"
proof (cases xs)
  case Nil
  assume "set xs = {h}"
  then show ?thesis using Nil by simp
next
  case (Cons a ys)
  assume s: "set xs = {h}" and d: "distinct xs"
  have a: "a = h" using s Cons by auto
  have "set ys \<subseteq> {h}" using s Cons by auto
  moreover have "h \<notin> set ys" using d Cons a by simp
  ultimately have "ys = []" by (cases ys) auto
  then show ?thesis using a Cons by simp
qed

text \<open>With the invariant, the watchers open for a session id are the one of its session.\<close>

lemma watchersOf_inv:
  assumes "invW s"
  shows "watchersOf s sid
           = (case map_of (watchedSessions s) sid of None \<Rightarrow> []
              | Some session \<Rightarrow> (case watcher session of None \<Rightarrow> [] | Some h \<Rightarrow> [h]))"
proof -
  have d: "distinct (watchersOf s sid)"
    using assms unfolding invW_def watchersOf_def by (simp add: distinct_map_filter)
  show ?thesis
  proof (cases "map_of (watchedSessions s) sid")
    case None
    then have "\<forall>h. (h, sid) \<notin> set (openWatchers s)"
      using assms unfolding invW_def by fastforce
    then have "filter (\<lambda>e. snd e = sid) (openWatchers s) = []"
      by (auto simp: filter_empty_conv)
    then show ?thesis using None by (simp add: watchersOf_def)
  next
    case (Some session)
    then obtain h where h: "watcher session = Some h" "(h, sid) \<in> set (openWatchers s)"
      using assms unfolding invW_def by blast
    have "set (watchersOf s sid) = {h}"
    proof
      show "set (watchersOf s sid) \<subseteq> {h}"
      proof
        fix x assume "x \<in> set (watchersOf s sid)"
        then have "(x, sid) \<in> set (openWatchers s)" by (auto simp: watchersOf_def)
        then have "\<exists>sess. map_of (watchedSessions s) sid = Some sess \<and> watcher sess = Some x"
          using assms unfolding invW_def by blast
        then show "x \<in> {h}" using Some h(1) by auto
      qed
      show "{h} \<subseteq> set (watchersOf s sid)"
        using h(2) by (force simp: watchersOf_def)
    qed
    then have "watchersOf s sid = [h]"
      using d by (rule_tac distinct_singleton_set) 
    then show ?thesis using Some h(1) by simp
  qed
qed

lemmas watcher_defs = run_def initialState_def startWatching_def stopWatching_def
  closeWatcher_def clearTimeout_def setTimeout_def watchCallback_def handleFileChange_def
  shouldIgnoreFile_def IGNORE_PATTERNS_def endsWith_def scheduleRefreshCheck_def
  scheduleRefreshCheckWithDelay_def DEBOUNCE_MS_def BASE_BACKOFF_MS_def MAX_BACKOFF_MS_def
  fireTimeout_def performRefreshCheck_def setPendingRefresh_def retryWithBackoff_def
  getBackoffDelay_def resetBackoff_def checkIfRefreshNeeded_def gatewayEnv_def
  notARepository_def timesOutAfterRefresh_def cleanTree_def trim_def isSpace_def Let_def
  watchersOf_def timeoutsOf_def

subsection \<open>One watcher per session id\<close>

lemma startWatching_run:
  "startWatching env (run evs) sid path = run (evs @ [(env, StartWatching sid path)])"
  by (simp add: run_def)

lemma startWatching_closes_prior:
  assumes "invW s" and "invT s"
  shows "\<forall>h \<in> set (watchersOf s sid). h \<notin> fst ` set (openWatchers (startWatching env s sid path))"
    and "timeoutsOf (startWatching env s sid path) sid = []"
    and "length (watchersOf (startWatching env s sid path) sid)
           = (if watch env path = None then 1 else 0)"
proof -
  let ?s1 = "stopWatching s sid"
  note c = stopWatching_clears [OF assms, of sid]
  have w1: "invW ?s1" using assms invW_stopWatching by blast
  have closed: "h \<notin> fst ` set (openWatchers ?s1)" if "h \<in> set (watchersOf s sid)" for h
  proof (cases "map_of (watchedSessions s) sid")
    case None
    then show ?thesis using that by (simp add: watchersOf_inv [OF assms(1)])
  next
    case (Some session)
    then have "watcher session = Some h"
      using that by (auto simp: watchersOf_inv [OF assms(1)] split: option.splits)
    then show ?thesis
      using stopWatching_fields(2) [OF Some] by auto
  qed
  have old: "h < nextWatcher ?s1" if "h \<in> set (watchersOf s sid)" for h
  proof -
    have "(h, sid) \<in> set (openWatchers s)" using that by (auto simp: watchersOf_def)
    then have "h < nextWatcher s" using assms(1) unfolding invW_def by blast
    moreover have "nextWatcher ?s1 = nextWatcher s"
      by (cases "map_of (watchedSessions s) sid")
         (simp_all add: stopWatching_absent stopWatching_fields(5))
    ultimately show ?thesis by simp
  qed
  show "\<forall>h \<in> set (watchersOf s sid). h \<notin> fst ` set (openWatchers (startWatching env s sid path))"
  proof (cases "watch env path")
    case None
    show ?thesis
      using closed old by (auto simp: startWatching_fields(2) [OF None])
  next
    case (Some e)
    then show ?thesis using closed by (simp add: startWatching_failed)
  qed
  have "pendingTimeouts (startWatching env s sid path) = pendingTimeouts ?s1"
    by (cases "watch env path") (simp_all add: startWatching_failed startWatching_fields(4))
  then show "timeoutsOf (startWatching env s sid path) sid = []"
    using c(4) by (auto simp: timeoutsOf_def filter_empty_conv)
  have i: "invW (startWatching env s sid path)"
    using assms by (rule invW_startWatching)
  show "length (watchersOf (startWatching env s sid path) sid)
          = (if watch env path = None then 1 else 0)"
  proof (cases "watch env path")
    case None
    then show ?thesis
      by (simp add: watchersOf_inv [OF i] startWatching_fields(1) [OF None] AList.update_conv')
  next
    case (Some e)
    then show ?thesis
      using c(1) by (simp add: startWatching_failed watchersOf_inv [OF w1])
  qed
qed

text \<open>
  C7, as the sources have it. In every state a run can reach, no session id is registered
  twice and the watchers open for a session id are one if the id is registered and none
  otherwise. startWatching first closes the watcher the id had and cancels the timeout
  armed for it. After two consecutive calls of startWatching for one id, one watcher is
  open for it if \<^verbatim>\<open>fs.watch\<close> granted the second call's watch; if it threw, none is
  open and the id is not registered.
\<close>

theorem one_watcher_per_session:
  "distinct (map fst (watchedSessions (run evs)))
   \<and> length (watchersOf (run evs) sid)
       = (if map_of (watchedSessions (run evs)) sid = None then 0 else 1)
   \<and> (\<forall>h \<in> set (watchersOf (run evs) sid).
         h \<notin> fst ` set (openWatchers (startWatching env (run evs) sid path)))
   \<and> timeoutsOf (startWatching env (run evs) sid path) sid = []
   \<and> length (watchersOf
         (startWatching env2 (startWatching env1 (run evs) sid path1) sid path2) sid)
       = (if watch env2 path2 = None then 1 else 0)
   \<and> (map_of (watchedSessions
         (startWatching env2 (startWatching env1 (run evs) sid path1) sid path2)) sid = None)
       = (watch env2 path2 \<noteq> None)"
proof -
  have r: "invW (run evs)" "invT (run evs)" using inv_run by blast+
  have r1: "invW (startWatching env1 (run evs) sid path1)"
    "invT (startWatching env1 (run evs) sid path1)"
    unfolding startWatching_run using inv_run by blast+
  have a: "length (watchersOf (run evs) sid)
       = (if map_of (watchedSessions (run evs)) sid = None then 0 else 1)"
  proof (cases "map_of (watchedSessions (run evs)) sid")
    case None
    then show ?thesis by (simp add: watchersOf_inv [OF r(1)])
  next
    case (Some session)
    then obtain h where "watcher session = Some h"
      using r(1) unfolding invW_def by blast
    then show ?thesis using Some by (simp add: watchersOf_inv [OF r(1)])
  qed
  let ?s2 = "startWatching env2 (startWatching env1 (run evs) sid path1) sid path2"
  have r2: "invW ?s2"
    unfolding startWatching_run using inv_run by blast
  have n: "length (watchersOf ?s2 sid) = (if watch env2 path2 = None then 1 else 0)"
    using startWatching_closes_prior(3) [OF r1, where sid = sid and env = env2 and path = path2] .
  have w1: "length (watchersOf ?s2 sid) = 1" if "watch env2 path2 = None"
    unfolding n using that by simp
  have w0: "length (watchersOf ?s2 sid) = 0" if "watch env2 path2 \<noteq> None"
    unfolding n using that by simp
  have b: "(map_of (watchedSessions ?s2) sid = None) = (watch env2 path2 \<noteq> None)"
  proof (cases "map_of (watchedSessions ?s2) sid")
    case None
    have "length (watchersOf ?s2 sid) = 0"
      unfolding watchersOf_inv [OF r2] None by simp
    then have "watch env2 path2 \<noteq> None" using w1 by fastforce
    then show ?thesis using None by blast
  next
    case (Some session)
    then obtain h where h: "watcher session = Some h"
      using r2 unfolding invW_def by blast
    have "length (watchersOf ?s2 sid) = 1"
      unfolding watchersOf_inv [OF r2] Some by (simp add: h)
    then have "watch env2 path2 = None" using w0 by fastforce
    then show ?thesis using Some by auto
  qed
  show ?thesis
    using a invW_distinct [OF r(1)]
      startWatching_closes_prior(1,2) [OF r, where sid = sid and env = env and path = path]
      n b
    by blast
qed

theorem one_watcher_per_session_witness:
  "watchersOf (run [(gatewayEnv cleanTree False True, StartWatching ''s1'' ''/repo''),
                    (gatewayEnv cleanTree False True, FsEvent 0 ''change'' (Some ''a.txt''))])
      ''s1'' = [0]
   \<and> 0 \<notin> fst ` set (openWatchers (startWatching (gatewayEnv cleanTree False True)
        (run [(gatewayEnv cleanTree False True, StartWatching ''s1'' ''/repo''),
              (gatewayEnv cleanTree False True, FsEvent 0 ''change'' (Some ''a.txt''))])
        ''s1'' ''/repo''))
   \<and> timeoutsOf (startWatching (gatewayEnv cleanTree False True)
        (run [(gatewayEnv cleanTree False True, StartWatching ''s1'' ''/repo''),
              (gatewayEnv cleanTree False True, FsEvent 0 ''change'' (Some ''a.txt''))])
        ''s1'' ''/repo'') ''s1'' = []
   \<and> length (watchersOf (startWatching (gatewayEnv cleanTree False True)
        (startWatching (gatewayEnv cleanTree False True)
          (run [(gatewayEnv cleanTree False True, StartWatching ''s1'' ''/repo''),
                (gatewayEnv cleanTree False True, FsEvent 0 ''change'' (Some ''a.txt''))])
          ''s1'' ''/repo'') ''s1'' ''/repo'') ''s1'') = 1
   \<and> map_of (watchedSessions (startWatching (gatewayEnv cleanTree False True)
        (startWatching (gatewayEnv cleanTree False True)
          (run [(gatewayEnv cleanTree False True, StartWatching ''s1'' ''/repo''),
                (gatewayEnv cleanTree False True, FsEvent 0 ''change'' (Some ''a.txt''))])
          ''s1'' ''/repo'') ''s1'' ''/repo'')) ''s1'' \<noteq> None"
proof -
  let ?e = "gatewayEnv cleanTree False True"
  let ?evs = "[(?e, StartWatching ''s1'' ''/repo''), (?e, FsEvent 0 ''change'' (Some ''a.txt''))]"
  have a: "watchersOf (run ?evs) ''s1'' = [0]"
    by (simp add: watcher_defs)
  have w: "watch ?e ''/repo'' = None"
    by (simp add: gatewayEnv_def)
  show ?thesis
    using one_watcher_per_session [where evs = ?evs and sid = "''s1''" and env = ?e
        and path = "''/repo''" and ?env1.0 = ?e and ?path1.0 = "''/repo''" and ?env2.0 = ?e
        and ?path2.0 = "''/repo''"] a w
    by simp
qed

text \<open>
  C7 as the claim states it fails: when \<^verbatim>\<open>fs.watch\<close> throws in the second of two
  consecutive startWatching calls for one id, no watcher is open for the id afterwards.
\<close>

theorem second_watch_refused:
  "watchersOf
     (run [(gatewayEnv cleanTree False True, StartWatching ''s1'' ''/repo''),
           (gatewayEnv cleanTree False False, StartWatching ''s1'' ''/gone'')]) ''s1'' = []
   \<and> openWatchers
     (run [(gatewayEnv cleanTree False True, StartWatching ''s1'' ''/repo''),
           (gatewayEnv cleanTree False False, StartWatching ''s1'' ''/gone'')]) = []
   \<and> watchedSessions
     (run [(gatewayEnv cleanTree False True, StartWatching ''s1'' ''/repo''),
           (gatewayEnv cleanTree False False, StartWatching ''s1'' ''/gone'')]) = []"
  by (simp add: watcher_defs)


subsection \<open>The refresh check\<close>

lemma checkIfRefreshNeeded_total: "\<exists>r. checkIfRefreshNeeded env p = Inr r"
  by (simp add: checkIfRefreshNeeded_def Let_def split: sum.splits)

lemma checkIfRefreshNeeded_inconclusive:
  assumes "\<not> insideWorkTree env p \<or> throws env p ''git rev-parse --git-dir''
           \<or> lockFilePresent env p
           \<or> throws env p ''git update-index --refresh --ignore-submodules''
           \<or> (throws env p ''git ls-files --others --exclude-standard''
               \<and> \<not> throws env p ''git diff-files --quiet --ignore-submodules''
               \<and> \<not> throws env p ''git diff-index --cached --quiet HEAD --ignore-submodules'')"
  shows "checkIfRefreshNeeded env p = Inr None"
  using assms
  by (auto simp: checkIfRefreshNeeded_def insideWorkTree_def lockFilePresent_def throws_def
      Let_def split: sum.splits)

lemma checkIfRefreshNeeded_changed_on_throw:
  assumes "insideWorkTree env p" and "\<not> throws env p ''git rev-parse --git-dir''"
    and "\<not> lockFilePresent env p"
    and "\<not> throws env p ''git update-index --refresh --ignore-submodules''"
    and "throws env p ''git diff-files --quiet --ignore-submodules''
         \<or> throws env p ''git diff-index --cached --quiet HEAD --ignore-submodules''"
  shows "checkIfRefreshNeeded env p = Inr (Some True)"
  using assms
  by (auto simp: checkIfRefreshNeeded_def insideWorkTree_def lockFilePresent_def throws_def
      Let_def split: sum.splits)

lemma setPendingRefresh_fields:
  "openWatchers (setPendingRefresh s sid b) = openWatchers s"
  "pendingTimeouts (setPendingRefresh s sid b) = pendingTimeouts s"
  "refreshDebounceTimers (setPendingRefresh s sid b) = refreshDebounceTimers s"
  "nextTimeout (setPendingRefresh s sid b) = nextTimeout s"
  "nextWatcher (setPendingRefresh s sid b) = nextWatcher s"
  "errorCounts (setPendingRefresh s sid b) = errorCounts s"
  "emitted (setPendingRefresh s sid b) = emitted s"
  "map_of (watchedSessions (setPendingRefresh s sid b)) k
     = (if k = sid then map_option (\<lambda>x. x \<lparr> pendingRefresh := b \<rparr>) (map_of (watchedSessions s) k)
        else map_of (watchedSessions s) k)"
  by (auto simp: setPendingRefresh_def AList.map_of_map_entry split: option.splits)

lemma retryWithBackoff_effect:
  assumes "map_of (watchedSessions s) sid = Some session"
  shows "emitted (retryWithBackoff s sid) = emitted s"
    and "map_option pendingRefresh (map_of (watchedSessions (retryWithBackoff s sid)) sid)
           = Some True"
    and "errorCounts (retryWithBackoff s sid) = (errorCounts s)(sid \<mapsto> Suc (streak s sid))"
    and "pendingTimeouts (retryWithBackoff s sid)
           = (case refreshDebounceTimers s sid of None \<Rightarrow> pendingTimeouts s
              | Some t \<Rightarrow> filter (\<lambda>e. fst e \<noteq> t) (pendingTimeouts s))
             @ [(nextTimeout s, sid, min (1000 * 2 ^ streak s sid) 30000)]"
    and "refreshDebounceTimers (retryWithBackoff s sid)
           = (refreshDebounceTimers s)(sid \<mapsto> nextTimeout s)"
    and "openWatchers (retryWithBackoff s sid) = openWatchers s"
  using assms
  by (simp_all add: retryWithBackoff_def getBackoffDelay_def Let_def streak_def
      scheduleRefreshCheckWithDelay_fields setPendingRefresh_fields
      BASE_BACKOFF_MS_def MAX_BACKOFF_MS_def cong: option.case_cong)

lemma performRefreshCheck_inconclusive:
  assumes "map_of (watchedSessions s) sid = Some session" and "pendingRefresh session"
    and "checkIfRefreshNeeded env (worktreePath session) = Inr None"
  shows "performRefreshCheck env s sid = retryWithBackoff (setPendingRefresh s sid False) sid"
  using assms by (simp add: performRefreshCheck_def Let_def)

lemma performRefreshCheck_inconclusive_effect:
  assumes "map_of (watchedSessions s) sid = Some session" and "pendingRefresh session"
    and "checkIfRefreshNeeded env (worktreePath session) = Inr None"
  shows "emitted (performRefreshCheck env s sid) = emitted s"
    and "map_option pendingRefresh (map_of (watchedSessions (performRefreshCheck env s sid)) sid)
           = Some True"
    and "errorCounts (performRefreshCheck env s sid) = (errorCounts s)(sid \<mapsto> Suc (streak s sid))"
    and "pendingTimeouts (performRefreshCheck env s sid)
           = (case refreshDebounceTimers s sid of None \<Rightarrow> pendingTimeouts s
              | Some t \<Rightarrow> filter (\<lambda>e. fst e \<noteq> t) (pendingTimeouts s))
             @ [(nextTimeout s, sid, min (1000 * 2 ^ streak s sid) 30000)]"
    and "refreshDebounceTimers (performRefreshCheck env s sid)
           = (refreshDebounceTimers s)(sid \<mapsto> nextTimeout s)"
proof -
  let ?s1 = "setPendingRefresh s sid False"
  have m: "map_of (watchedSessions ?s1) sid = Some (session \<lparr> pendingRefresh := False \<rparr>)"
    using assms(1) by (simp add: setPendingRefresh_fields)
  have st: "streak ?s1 sid = streak s sid"
    by (simp add: streak_def setPendingRefresh_fields)
  note r = retryWithBackoff_effect [OF m]
  note p = performRefreshCheck_inconclusive [OF assms]
  show "emitted (performRefreshCheck env s sid) = emitted s"
    unfolding p r by (simp add: setPendingRefresh_fields)
  show "map_option pendingRefresh (map_of (watchedSessions (performRefreshCheck env s sid)) sid)
           = Some True"
    unfolding p r ..
  show "errorCounts (performRefreshCheck env s sid) = (errorCounts s)(sid \<mapsto> Suc (streak s sid))"
    unfolding p r st by (simp add: setPendingRefresh_fields)
  show "pendingTimeouts (performRefreshCheck env s sid)
           = (case refreshDebounceTimers s sid of None \<Rightarrow> pendingTimeouts s
              | Some t \<Rightarrow> filter (\<lambda>e. fst e \<noteq> t) (pendingTimeouts s))
             @ [(nextTimeout s, sid, min (1000 * 2 ^ streak s sid) 30000)]"
    unfolding p r st by (simp add: setPendingRefresh_fields cong: option.case_cong)
  show "refreshDebounceTimers (performRefreshCheck env s sid)
           = (refreshDebounceTimers s)(sid \<mapsto> nextTimeout s)"
    unfolding p r by (simp add: setPendingRefresh_fields)
qed

lemma performRefreshCheck_definitive_effect:
  assumes "map_of (watchedSessions s) sid = Some session" and "pendingRefresh session"
    and "checkIfRefreshNeeded env (worktreePath session) = Inr (Some changed)"
  shows "emitted (performRefreshCheck env s sid) = (if changed then emitted s @ [sid] else emitted s)"
    and "errorCounts (performRefreshCheck env s sid) = (errorCounts s)(sid := None)"
    and "pendingTimeouts (performRefreshCheck env s sid) = pendingTimeouts s"
    and "map_option pendingRefresh (map_of (watchedSessions (performRefreshCheck env s sid)) sid)
           = Some False"
  using assms
  by (simp_all add: performRefreshCheck_def Let_def resetBackoff_def setPendingRefresh_fields)


text \<open>
  C8, as the sources have it. checkIfRefreshNeeded throws nothing. It is inconclusive when
  the work-tree query fails or answers anything but \<^verbatim>\<open>true\<close>, when the metadata-directory
  query fails, when the lock file is present, when the index refresh fails, and when the
  untracked-files listing fails. When the unstaged-changes query or the staged-changes
  query throws, whatever the cause, the result is "changed". On an inconclusive result
  performRefreshCheck emits nothing, sets pendingRefresh back to true, adds one to the
  failure streak and arms a retry after \<open>min (1000 * 2 ^ streak) 30000\<close> milliseconds; on
  "changed" it emits needs-refresh, clears the streak and arms nothing.
\<close>

theorem refresh_check_policy:
  "(\<exists>r. checkIfRefreshNeeded env p = Inr r)
   \<and> (\<not> insideWorkTree env p \<or> throws env p ''git rev-parse --git-dir''
        \<or> lockFilePresent env p
        \<or> throws env p ''git update-index --refresh --ignore-submodules''
        \<or> (throws env p ''git ls-files --others --exclude-standard''
            \<and> \<not> throws env p ''git diff-files --quiet --ignore-submodules''
            \<and> \<not> throws env p ''git diff-index --cached --quiet HEAD --ignore-submodules'')
       \<longrightarrow> checkIfRefreshNeeded env p = Inr None)
   \<and> (insideWorkTree env p \<and> \<not> throws env p ''git rev-parse --git-dir''
        \<and> \<not> lockFilePresent env p
        \<and> \<not> throws env p ''git update-index --refresh --ignore-submodules''
        \<and> (throws env p ''git diff-files --quiet --ignore-submodules''
            \<or> throws env p ''git diff-index --cached --quiet HEAD --ignore-submodules'')
       \<longrightarrow> checkIfRefreshNeeded env p = Inr (Some True))
   \<and> (map_of (watchedSessions s) sid = Some session \<and> pendingRefresh session
        \<and> checkIfRefreshNeeded env (worktreePath session) = Inr None
       \<longrightarrow> emitted (performRefreshCheck env s sid) = emitted s
           \<and> map_option pendingRefresh (map_of (watchedSessions (performRefreshCheck env s sid)) sid)
               = Some True
           \<and> errorCounts (performRefreshCheck env s sid) sid = Some (Suc (streak s sid))
           \<and> refreshDebounceTimers (performRefreshCheck env s sid) sid = Some (nextTimeout s)
           \<and> pendingTimeouts (performRefreshCheck env s sid)
               = (case refreshDebounceTimers s sid of None \<Rightarrow> pendingTimeouts s
                  | Some t \<Rightarrow> filter (\<lambda>e. fst e \<noteq> t) (pendingTimeouts s))
                 @ [(nextTimeout s, sid, min (1000 * 2 ^ streak s sid) 30000)])
   \<and> (map_of (watchedSessions s) sid = Some session \<and> pendingRefresh session
        \<and> checkIfRefreshNeeded env (worktreePath session) = Inr (Some True)
       \<longrightarrow> emitted (performRefreshCheck env s sid) = emitted s @ [sid]
           \<and> errorCounts (performRefreshCheck env s sid) sid = None
           \<and> pendingTimeouts (performRefreshCheck env s sid) = pendingTimeouts s)"
proof (intro conjI impI)
  show "\<exists>r. checkIfRefreshNeeded env p = Inr r"
    by (rule checkIfRefreshNeeded_total)
next
  assume "\<not> insideWorkTree env p \<or> throws env p ''git rev-parse --git-dir''
        \<or> lockFilePresent env p
        \<or> throws env p ''git update-index --refresh --ignore-submodules''
        \<or> (throws env p ''git ls-files --others --exclude-standard''
            \<and> \<not> throws env p ''git diff-files --quiet --ignore-submodules''
            \<and> \<not> throws env p ''git diff-index --cached --quiet HEAD --ignore-submodules'')"
  then show "checkIfRefreshNeeded env p = Inr None"
    by (rule checkIfRefreshNeeded_inconclusive)
next
  assume "insideWorkTree env p \<and> \<not> throws env p ''git rev-parse --git-dir''
        \<and> \<not> lockFilePresent env p
        \<and> \<not> throws env p ''git update-index --refresh --ignore-submodules''
        \<and> (throws env p ''git diff-files --quiet --ignore-submodules''
            \<or> throws env p ''git diff-index --cached --quiet HEAD --ignore-submodules'')"
  then show "checkIfRefreshNeeded env p = Inr (Some True)"
    using checkIfRefreshNeeded_changed_on_throw by blast
next
  assume a: "map_of (watchedSessions s) sid = Some session \<and> pendingRefresh session
        \<and> checkIfRefreshNeeded env (worktreePath session) = Inr None"
  then have b: "map_of (watchedSessions s) sid = Some session" "pendingRefresh session"
    "checkIfRefreshNeeded env (worktreePath session) = Inr None" by blast+
  note e = performRefreshCheck_inconclusive_effect [OF b]
  show "emitted (performRefreshCheck env s sid) = emitted s" by (rule e(1))
  show "map_option pendingRefresh (map_of (watchedSessions (performRefreshCheck env s sid)) sid)
               = Some True" by (rule e(2))
  show "errorCounts (performRefreshCheck env s sid) sid = Some (Suc (streak s sid))"
    by (simp add: e(3))
  show "refreshDebounceTimers (performRefreshCheck env s sid) sid = Some (nextTimeout s)"
    by (simp add: e(5))
  show "pendingTimeouts (performRefreshCheck env s sid)
               = (case refreshDebounceTimers s sid of None \<Rightarrow> pendingTimeouts s
                  | Some t \<Rightarrow> filter (\<lambda>e. fst e \<noteq> t) (pendingTimeouts s))
                 @ [(nextTimeout s, sid, min (1000 * 2 ^ streak s sid) 30000)]" by (rule e(4))
next
  assume a: "map_of (watchedSessions s) sid = Some session \<and> pendingRefresh session
        \<and> checkIfRefreshNeeded env (worktreePath session) = Inr (Some True)"
  then have b: "map_of (watchedSessions s) sid = Some session" "pendingRefresh session"
    "checkIfRefreshNeeded env (worktreePath session) = Inr (Some True)" by blast+
  note e = performRefreshCheck_definitive_effect [OF b]
  show "emitted (performRefreshCheck env s sid) = emitted s @ [sid]" by (simp add: e(1))
  show "errorCounts (performRefreshCheck env s sid) sid = None" by (simp add: e(2))
  show "pendingTimeouts (performRefreshCheck env s sid) = pendingTimeouts s" by (rule e(3))
qed

theorem refresh_check_policy_witness:
  "checkIfRefreshNeeded (gatewayEnv cleanTree True True) ''/repo'' = Inr None
   \<and> emitted (performRefreshCheck (gatewayEnv cleanTree True True)
        (run [(gatewayEnv cleanTree False True, StartWatching ''s1'' ''/repo''),
              (gatewayEnv cleanTree False True, FsEvent 0 ''change'' (Some ''a.txt''))])
        ''s1'') = []
   \<and> errorCounts (performRefreshCheck (gatewayEnv cleanTree True True)
        (run [(gatewayEnv cleanTree False True, StartWatching ''s1'' ''/repo''),
              (gatewayEnv cleanTree False True, FsEvent 0 ''change'' (Some ''a.txt''))])
        ''s1'') ''s1'' = Some 1
   \<and> pendingTimeouts (performRefreshCheck (gatewayEnv cleanTree True True)
        (run [(gatewayEnv cleanTree False True, StartWatching ''s1'' ''/repo''),
              (gatewayEnv cleanTree False True, FsEvent 0 ''change'' (Some ''a.txt''))])
        ''s1'') = [(1, ''s1'', 1000)]"
proof -
  let ?e = "gatewayEnv cleanTree False True"
  let ?locked = "gatewayEnv cleanTree True True"
  let ?s = "run [(?e, StartWatching ''s1'' ''/repo''), (?e, FsEvent 0 ''change'' (Some ''a.txt''))]"
  let ?session = "\<lparr> sessionId = ''s1'', worktreePath = ''/repo'', watcher = Some 0,
                    lastModified = 0, pendingRefresh = True \<rparr>"
  have l: "lockFilePresent ?locked ''/repo''"
    by (simp add: lockFilePresent_def gatewayEnv_def cleanTree_def trim_def isSpace_def
        endsWith_def)
  have m: "map_of (watchedSessions ?s) ''s1'' = Some ?session"
    by (simp add: watcher_defs)
  have p: "pendingRefresh ?session" "worktreePath ?session = ''/repo''" by simp_all
  have st: "streak ?s ''s1'' = 0" "nextTimeout ?s = 1" "emitted ?s = []"
    "refreshDebounceTimers ?s ''s1'' = Some 0" "pendingTimeouts ?s = [(0, ''s1'', 1500)]"
    by (simp_all add: streak_def watcher_defs)
  show ?thesis
    using refresh_check_policy [where env = ?locked and p = "''/repo''" and s = ?s
        and sid = "''s1''" and session = ?session] l m p st
    by simp
qed

text \<open>
  C8 as the claim states it fails: with the first three queries answered and the
  unstaged-changes query timing out, the check is not inconclusive: needs-refresh is
  emitted, no retry is armed and no failure is counted.
\<close>

theorem unstaged_query_timeout_reads_as_changed:
  "checkIfRefreshNeeded (gatewayEnv timesOutAfterRefresh False True) ''/repo'' = Inr (Some True)
   \<and> emitted (run [(gatewayEnv timesOutAfterRefresh False True, StartWatching ''s1'' ''/repo''),
                  (gatewayEnv timesOutAfterRefresh False True, FsEvent 0 ''change'' (Some ''a.txt'')),
                  (gatewayEnv timesOutAfterRefresh False True, Timeout 0)]) = [''s1'']
   \<and> pendingTimeouts
        (run [(gatewayEnv timesOutAfterRefresh False True, StartWatching ''s1'' ''/repo''),
              (gatewayEnv timesOutAfterRefresh False True, FsEvent 0 ''change'' (Some ''a.txt'')),
              (gatewayEnv timesOutAfterRefresh False True, Timeout 0)]) = []
   \<and> errorCounts
        (run [(gatewayEnv timesOutAfterRefresh False True, StartWatching ''s1'' ''/repo''),
              (gatewayEnv timesOutAfterRefresh False True, FsEvent 0 ''change'' (Some ''a.txt'')),
              (gatewayEnv timesOutAfterRefresh False True, Timeout 0)]) ''s1'' = None"
  by (simp add: watcher_defs)

subsection \<open>The backoff streak\<close>

text \<open>
  C1. Three runs in a directory where every check is inconclusive. The first two checks
  of a session arm retries after 1000 and 2000 milliseconds. The session is then stopped
  and a session is started anew for the same id: the first inconclusive check of the new
  session arms its retry after 4000 milliseconds, not 1000, since stopWatching leaves the
  id's entry in errorCounts in place.
\<close>

theorem backoff_streak_survives_restart:
  "pendingTimeouts (run
     [(gatewayEnv notARepository False True, StartWatching ''s1'' ''/repo''),
      (gatewayEnv notARepository False True, FsEvent 0 ''change'' (Some ''a.txt'')),
      (gatewayEnv notARepository False True, Timeout 0)]) = [(1, ''s1'', 1000)]
   \<and> pendingTimeouts (run
     [(gatewayEnv notARepository False True, StartWatching ''s1'' ''/repo''),
      (gatewayEnv notARepository False True, FsEvent 0 ''change'' (Some ''a.txt'')),
      (gatewayEnv notARepository False True, Timeout 0),
      (gatewayEnv notARepository False True, Timeout 1)]) = [(2, ''s1'', 2000)]
   \<and> pendingTimeouts (run
     [(gatewayEnv notARepository False True, StartWatching ''s1'' ''/repo''),
      (gatewayEnv notARepository False True, FsEvent 0 ''change'' (Some ''a.txt'')),
      (gatewayEnv notARepository False True, Timeout 0),
      (gatewayEnv notARepository False True, Timeout 1),
      (gatewayEnv notARepository False True, StopWatching ''s1''),
      (gatewayEnv notARepository False True, StartWatching ''s1'' ''/repo''),
      (gatewayEnv notARepository False True, FsEvent 1 ''change'' (Some ''a.txt'')),
      (gatewayEnv notARepository False True, Timeout 3)]) = [(4, ''s1'', 4000)]"
  by (simp add: watcher_defs)

section \<open>Properties of the diff parsers\<close>

lemma parseSection_total: "\<exists>fs cs. parseSection maxBytes sec = Inr (fs, cs)"
  by (auto simp: parseSection_def Let_def bindE_def group1_def group2_def
      split: option.splits prod.splits)

lemma parseSection_shape:
  assumes "parseSection maxBytes sec = Inr (fs, cs)"
  shows "length fs + countLine (ConsoleWarn ''Could not parse file names from diff:'') cs = 1"
    and "\<forall>f \<in> set fs. isBinary f \<longrightarrow> fileAdditions f = 0 \<and> fileDeletions f = 0
           \<and> oldValue f = [] \<and> newValue f = []"
    and "\<forall>f \<in> set fs. isBinary f
           = (includes_str sec ''Binary files'' \<or> includes_str sec ''GIT binary patch'')"
  using assms
  by (auto simp: parseSection_def Let_def bindE_def group1_def group2_def countLine_def
      split: option.splits prod.splits if_splits)


lemma parseSection_unmatched:
  "reHeaderLine sec = None \<Longrightarrow> reHeaderLoose sec = None \<Longrightarrow>
     parseSection maxBytes sec = Inr ([], [ConsoleWarn ''Could not parse file names from diff:''])"
  by (simp add: parseSection_def)

lemma parseSections_eq:
  "parseSections maxBytes secs (files, console)
     = Inr (files @ concat (map (\<lambda>sec. filesOf (parseSection maxBytes sec)) secs),
            console @ concat (map (\<lambda>sec. consoleOf (parseSection maxBytes sec)) secs))"
proof (induction secs arbitrary: files console)
  case Nil
  then show ?case by simp
next
  case (Cons sec secs)
  obtain fs cs where p: "parseSection maxBytes sec = Inr (fs, cs)"
    using parseSection_total by blast
  show ?case
    by (simp add: p bindE_def Cons filesOf_def consoleOf_def)
qed

lemma matchSections_Nil_blank:
  "list_all isSpace s \<Longrightarrow> matchSections s = []"
  by (induction s) (auto simp: isSpace_def)

lemma trim_Nil_blank:
  assumes "trim s = []"
  shows "list_all isSpace s"
proof -
  let ?x = "dropWhile isSpace (rev s)"
  have a: "\<forall>c \<in> set ?x. isSpace c"
    using assms by (simp add: trim_def dropWhile_eq_Nil_conv)
  have "?x = []"
  proof (rule ccontr)
    assume ne: "?x \<noteq> []"
    then have "\<not> isSpace (hd ?x)" by (rule hd_dropWhile)
    moreover have "hd ?x \<in> set ?x" using ne by simp
    ultimately show False using a by blast
  qed
  then show ?thesis by (simp add: dropWhile_eq_Nil_conv list_all_iff)
qed

lemma countLine_append: "countLine l (xs @ ys) = countLine l xs + countLine l ys"
  by (simp add: countLine_def)

lemma countLine_Cons:
  "countLine l (x # xs) = (if x = l then 1 else 0) + countLine l xs" "countLine l [] = 0"
  by (simp_all add: countLine_def)

lemma countLine_concat: "countLine l (concat xss) = sum_list (map (countLine l) xss)"
  by (induction xss) (simp_all add: countLine_append countLine_Cons)

lemma parseUnifiedDiff_eq:
  "\<exists>console. parseUnifiedDiff d maxBytes
      = Inr (concat (map (\<lambda>sec. filesOf (parseSection maxBytes sec)) (matchSections d)), console)
    \<and> countLine (ConsoleWarn ''Could not parse file names from diff:'') console
      = sum_list (map (\<lambda>sec. countLine (ConsoleWarn ''Could not parse file names from diff:'')
                               (consoleOf (parseSection maxBytes sec))) (matchSections d))"
proof (cases "d = [] \<or> length (trim d) = 0")
  case True
  then have "trim d = []"
    by (auto simp: trim_def)
  then have "list_all isSpace d" by (rule trim_Nil_blank)
  then have "matchSections d = []" by (rule matchSections_Nil_blank)
  then show ?thesis using True by (simp add: parseUnifiedDiff_def countLine_Cons)
next
  case False
  show ?thesis
  proof (cases "matchSections d")
    case Nil
    then show ?thesis
      using False by (simp add: parseUnifiedDiff_def fileMatchesOf_def countLine_Cons)
  next
    case (Cons m ms)
    show ?thesis
      using False Cons
      by (simp add: parseUnifiedDiff_def fileMatchesOf_def forOf_def bindE_def Let_def
          parseSections_eq countLine_append countLine_concat countLine_Cons comp_def
          del: parseSections.simps)
  qed
qed


lemma parseFileSection_total: "\<exists>fs cs. parseFileSection sec = Inr (fs, cs)"
  by (auto simp: parseFileSection_def Let_def bindE_def group1_def group2_def
      split: option.splits prod.splits)

lemma parseFileSection_shape:
  assumes "parseFileSection sec = Inr (fs, cs)"
  shows "length fs + countLine (ConsoleWarn ''Could not parse file names from diff block:'') cs
           + countLine (ConsoleError ''parseFilesFromDiff: Both old and new paths are empty for diff:'') cs
         = 1"
    and "\<forall>f \<in> set fs. isBinary f \<longrightarrow> fileAdditions f = 0 \<and> fileDeletions f = 0"
  using assms
  by (auto simp: parseFileSection_def Let_def bindE_def group1_def group2_def countLine_def
      split: option.splits prod.splits if_splits)

lemma parseFileSection_unmatched:
  "parseFileNameFromDiff sec = None \<Longrightarrow>
     parseFileSection sec = Inr ([], [ConsoleWarn ''Could not parse file names from diff block:''])"
  by (simp add: parseFileSection_def)

lemma parseFileSections_eq:
  "parseFileSections secs (files, console)
     = Inr (files @ concat (map (\<lambda>sec. filesOf (parseFileSection sec)) secs),
            console @ concat (map (\<lambda>sec. consoleOf (parseFileSection sec)) secs))"
proof (induction secs arbitrary: files console)
  case Nil
  then show ?case by simp
next
  case (Cons sec secs)
  obtain fs cs where p: "parseFileSection sec = Inr (fs, cs)"
    using parseFileSection_total by blast
  show ?case
    by (simp add: p bindE_def Cons filesOf_def consoleOf_def)
qed

lemma parseFilesFromDiff_eq:
  "\<exists>console. parseFilesFromDiff d
      = Inr (concat (map (\<lambda>sec. filesOf (parseFileSection sec)) (matchSections d)), console)
    \<and> (\<forall>l. l = ConsoleWarn ''Could not parse file names from diff block:''
           \<or> l = ConsoleError ''parseFilesFromDiff: Both old and new paths are empty for diff:''
         \<longrightarrow> countLine l console
             = sum_list (map (\<lambda>sec. countLine l (consoleOf (parseFileSection sec)))
                          (matchSections d)))"
proof (cases "d = [] \<or> length (trim d) = 0")
  case True
  then have "trim d = []"
    by (auto simp: trim_def)
  then have "list_all isSpace d" by (rule trim_Nil_blank)
  then have "matchSections d = []" by (rule matchSections_Nil_blank)
  then show ?thesis using True by (auto simp: parseFilesFromDiff_def countLine_Cons)
next
  case False
  show ?thesis
  proof (cases "matchSections d")
    case Nil
    then show ?thesis
      using False by (auto simp: parseFilesFromDiff_def fileMatchesOf_def countLine_Cons)
  next
    case (Cons m ms)
    show ?thesis
      using False Cons
      by (auto simp: parseFilesFromDiff_def fileMatchesOf_def forOf_def bindE_def Let_def
          parseFileSections_eq countLine_append countLine_concat countLine_Cons comp_def
          simp del: parseFileSections.simps)
  qed
qed

lemma sum_list_sections:
  assumes "\<And>x. x \<in> set xs \<Longrightarrow> f x + g x = (1::nat)"
  shows "sum_list (map f xs) + sum_list (map g xs) = length xs"
  using assms by (induction xs) (simp_all, force)

lemma length_concat_sum: "length (concat (map f xs)) = sum_list (map (\<lambda>x. length (f x)) xs)"
  by (induction xs) simp_all

lemma parseUnifiedDiff_count:
  "length (filesOf (parseUnifiedDiff d maxBytes))
     + countLine (ConsoleWarn ''Could not parse file names from diff:'')
         (consoleOf (parseUnifiedDiff d maxBytes))
   = length (matchSections d)"
proof -
  obtain console where p: "parseUnifiedDiff d maxBytes
      = Inr (concat (map (\<lambda>sec. filesOf (parseSection maxBytes sec)) (matchSections d)), console)"
    and c: "countLine (ConsoleWarn ''Could not parse file names from diff:'') console
      = sum_list (map (\<lambda>sec. countLine (ConsoleWarn ''Could not parse file names from diff:'')
                               (consoleOf (parseSection maxBytes sec))) (matchSections d))"
    using parseUnifiedDiff_eq by blast
  have one: "length (filesOf (parseSection maxBytes sec))
               + countLine (ConsoleWarn ''Could not parse file names from diff:'')
                   (consoleOf (parseSection maxBytes sec)) = 1" for sec
  proof -
    obtain fs cs where q: "parseSection maxBytes sec = Inr (fs, cs)"
      using parseSection_total by blast
    show ?thesis using parseSection_shape(1) [OF q] by (simp add: q filesOf_def consoleOf_def)
  qed
  have f: "filesOf (parseUnifiedDiff d maxBytes)
             = concat (map (\<lambda>sec. filesOf (parseSection maxBytes sec)) (matchSections d))"
    by (simp add: p filesOf_def)
  have g: "consoleOf (parseUnifiedDiff d maxBytes) = console"
    by (simp add: p consoleOf_def)
  show ?thesis
    unfolding f g c length_concat_sum by (rule sum_list_sections) (rule one)
qed

lemma parseFilesFromDiff_count:
  "length (filesOf (parseFilesFromDiff d))
     + countLine (ConsoleWarn ''Could not parse file names from diff block:'')
         (consoleOf (parseFilesFromDiff d))
     + countLine (ConsoleError ''parseFilesFromDiff: Both old and new paths are empty for diff:'')
         (consoleOf (parseFilesFromDiff d))
   = length (matchSections d)"
proof -
  let ?w = "ConsoleWarn ''Could not parse file names from diff block:''"
  let ?e = "ConsoleError ''parseFilesFromDiff: Both old and new paths are empty for diff:''"
  obtain console where p: "parseFilesFromDiff d
      = Inr (concat (map (\<lambda>sec. filesOf (parseFileSection sec)) (matchSections d)), console)"
    and c: "\<And>l. l = ?w \<or> l = ?e \<Longrightarrow> countLine l console
             = sum_list (map (\<lambda>sec. countLine l (consoleOf (parseFileSection sec)))
                          (matchSections d))"
    using parseFilesFromDiff_eq by blast
  have one: "length (filesOf (parseFileSection sec))
               + (countLine ?w (consoleOf (parseFileSection sec))
                  + countLine ?e (consoleOf (parseFileSection sec))) = 1" for sec
  proof -
    obtain fs cs where q: "parseFileSection sec = Inr (fs, cs)"
      using parseFileSection_total by blast
    show ?thesis using parseFileSection_shape(1) [OF q] by (simp add: q filesOf_def consoleOf_def)
  qed
  have "sum_list (map (\<lambda>sec. length (filesOf (parseFileSection sec))) (matchSections d))
          + sum_list (map (\<lambda>sec. countLine ?w (consoleOf (parseFileSection sec))
                                + countLine ?e (consoleOf (parseFileSection sec))) (matchSections d))
        = length (matchSections d)"
    by (rule sum_list_sections) (rule one)
  moreover have f: "filesOf (parseFilesFromDiff d)
             = concat (map (\<lambda>sec. filesOf (parseFileSection sec)) (matchSections d))"
    by (simp add: p filesOf_def)
  moreover have g: "consoleOf (parseFilesFromDiff d) = console"
    by (simp add: p consoleOf_def)
  ultimately show ?thesis
    by (simp add: length_concat_sum c sum_list_addf)
qed


lemma parseUnifiedDiff_files:
  "filesOf (parseUnifiedDiff d maxBytes)
     = concat (map (\<lambda>sec. filesOf (parseSection maxBytes sec)) (matchSections d))"
proof -
  obtain console where "parseUnifiedDiff d maxBytes
      = Inr (concat (map (\<lambda>sec. filesOf (parseSection maxBytes sec)) (matchSections d)), console)"
    using parseUnifiedDiff_eq by blast
  then show ?thesis by (simp add: filesOf_def)
qed

lemma parseFilesFromDiff_files:
  "filesOf (parseFilesFromDiff d)
     = concat (map (\<lambda>sec. filesOf (parseFileSection sec)) (matchSections d))"
proof -
  obtain console where "parseFilesFromDiff d
      = Inr (concat (map (\<lambda>sec. filesOf (parseFileSection sec)) (matchSections d)), console)"
    using parseFilesFromDiff_eq by blast
  then show ?thesis by (simp add: filesOf_def)
qed

lemma parseUnifiedDiff_total:
  "\<exists>files console. parseUnifiedDiff d maxBytes = Inr (files, console)"
  using parseUnifiedDiff_eq [of d maxBytes] by blast

lemma parseFilesFromDiff_total:
  "\<exists>files console. parseFilesFromDiff d = Inr (files, console)"
  using parseFilesFromDiff_eq [of d] by blast

lemma parsers_empty:
  "parseUnifiedDiff [] maxBytes = Inr ([], [ConsoleLog ''parseUnifiedDiff: Empty diff input''])"
  "parseFilesFromDiff [] = Inr ([], [ConsoleLog ''parseFilesFromDiff: Empty diff input''])"
  by (simp_all add: parseUnifiedDiff_def parseFilesFromDiff_def)

lemma parseSection_files:
  "filesOf (parseSection maxBytes sec) = [] \<longleftrightarrow> reHeaderLine sec = None \<and> reHeaderLoose sec = None"
  by (auto simp: parseSection_def Let_def bindE_def group1_def group2_def filesOf_def
      split: option.splits prod.splits if_splits)


lemma sectionBody_split: "sectionBody s = (b, r) \<Longrightarrow> s = b @ r"
  by (induction s arbitrary: b r) (auto split: prod.splits if_splits)

lemma sectionBody_rest:
  "sectionBody s = (b, r) \<Longrightarrow> r = [] \<or> startsWith r ''diff --git''"
  by (induction s arbitrary: b r) (auto split: prod.splits if_splits simp del: startsWith.simps)

lemma sectionBody_body:
  "sectionBody s = (b, r) \<Longrightarrow> fromFirstHeader s = r"
  by (induction s arbitrary: b r) (auto split: prod.splits if_splits simp del: startsWith.simps)


lemma startsWith_prefix: "startsWith x p \<Longrightarrow> startsWith (x @ y) p"
  by (induction x p rule: startsWith.induct) simp_all

lemma sectionBody_no_header:
  "sectionBody s = (b, r) \<Longrightarrow> \<not> includes_str b ''diff --git''"
proof (induction s arbitrary: b r)
  case Nil
  then show ?case by simp
next
  case (Cons c cs)
  show ?case
  proof (cases "startsWith (c # cs) ''diff --git''")
    case True
    then show ?thesis using Cons(2) by simp
  next
    case False
    obtain b' r' where br: "sectionBody cs = (b', r')" by (cases "sectionBody cs") auto
    then have b: "b = c # b'" and r: "r = r'" using Cons(2) False by (simp_all del: startsWith.simps)
    have cs: "cs = b' @ r'" using sectionBody_split [OF br] .
    have "\<not> startsWith (c # b') ''diff --git''"
    proof
      assume "startsWith (c # b') ''diff --git''"
      then have "startsWith ((c # b') @ r') ''diff --git''" by (rule startsWith_prefix)
      then show False using False cs by simp
    qed
    moreover have "\<not> includes_str b' ''diff --git''" using Cons(1) [OF br] .
    ultimately show ?thesis by (simp add: b del: startsWith.simps)
  qed
qed

lemma startsWith_take: "startsWith s p \<Longrightarrow> n = length p \<Longrightarrow> take n s = p"
  by (induction s p arbitrary: n rule: startsWith.induct) auto

lemma matchSections_concat: "concat (matchSections d) = fromFirstHeader d"
proof (induction d rule: matchSections.induct)
  case 1
  then show ?case by simp
next
  case (2 c cs)
  show ?case
  proof (cases "startsWith (c # cs) ''diff --git''")
    case True
    obtain b r where br: "sectionBody (drop 10 (c # cs)) = (b, r)"
      by (cases "sectionBody (drop 10 (c # cs))") auto
    have ih: "concat (matchSections r) = fromFirstHeader r"
      using 2(1) [OF True br [symmetric]] .
    have r: "fromFirstHeader r = r"
      using sectionBody_rest [OF br] by (cases r) (auto simp del: startsWith.simps)
    have "c # cs = take 10 (c # cs) @ drop 10 (c # cs)" by (simp only: append_take_drop_id)
    also have "take 10 (c # cs) = ''diff --git''"
      by (rule startsWith_take [OF True]) simp
    also have "drop 10 (c # cs) = b @ r" using sectionBody_split [OF br] .
    finally have e: "c # cs = ''diff --git'' @ b @ r" .
    have "concat (matchSections (c # cs)) = ''diff --git'' @ b @ r"
      using True br ih r by (simp del: startsWith.simps)
    then show ?thesis using True e by (simp del: startsWith.simps)
  next
    case False
    then show ?thesis using 2(2) by (simp del: startsWith.simps)
  qed
qed

lemma matchSections_sections:
  "sec \<in> set (matchSections d) \<Longrightarrow>
     startsWith sec ''diff --git'' \<and> \<not> includes_str (drop 10 sec) ''diff --git''"
proof (induction d rule: matchSections.induct)
  case 1
  then show ?case by simp
next
  case (2 c cs)
  show ?case
  proof (cases "startsWith (c # cs) ''diff --git''")
    case True
    obtain b r where br: "sectionBody (drop 10 (c # cs)) = (b, r)"
      by (cases "sectionBody (drop 10 (c # cs))") auto
    from 2(3) True br have "sec = ''diff --git'' @ b \<or> sec \<in> set (matchSections r)"
      by (simp del: startsWith.simps)
    then show ?thesis
    proof
      assume s: "sec = ''diff --git'' @ b"
      have "\<not> includes_str b ''diff --git''" using sectionBody_no_header [OF br] .
      then show ?thesis by (simp add: s)
    next
      assume "sec \<in> set (matchSections r)"
      then show ?thesis using 2(1) [OF True br [symmetric]] by blast
    qed
  next
    case False
    then show ?thesis using 2(2,3) by (simp del: startsWith.simps)
  qed
qed


lemma parseSection_matched:
  "reHeaderLine sec = Some (old, new) \<or> reHeaderLine sec = None \<and> reHeaderLoose sec = Some (old, new)
   \<Longrightarrow> map (\<lambda>f. (oldPath f, filePath f)) (filesOf (parseSection maxBytes sec)) = [(old, new)]"
  by (auto simp: parseSection_def Let_def bindE_def group1_def group2_def filesOf_def
      split: option.splits prod.splits if_splits)

lemma parseFileSection_matched:
  "parseFileNameFromDiff sec = Some (old, new) \<Longrightarrow>
   map (\<lambda>f. (oldPath f, filePath f)) (filesOf (parseFileSection sec))
     = (if new \<noteq> [] then [(old, new)] else if old \<noteq> [] then [(old, old)] else [])"
  by (auto simp: parseFileSection_def Let_def bindE_def group1_def group2_def filesOf_def
      split: option.splits prod.splits if_splits)

lemma parseFileSection_files:
  "filesOf (parseFileSection sec) = []
     \<longleftrightarrow> parseFileNameFromDiff sec = None \<or> parseFileNameFromDiff sec = Some ([], [])"
  by (auto simp: parseFileSection_def Let_def bindE_def group1_def group2_def filesOf_def
      split: option.splits prod.splits if_splits)

text \<open>
  C4. The unified-diff parsers never raise, whatever the input string: both
  \<open>parseUnifiedDiff\<close> and \<open>parseFilesFromDiff\<close> return normally on every input.
  The empty input gives the empty sequence of files.  The sections of an input are its text
  from the first \<^verbatim>\<open>diff --git\<close> on, cut before every further \<^verbatim>\<open>diff --git\<close>.  The files
  returned are, in order, the files of the sections, each section parsed on its own.  A
  section gives no file exactly when no path pattern matches its header (or, in
  \<open>parseFilesFromDiff\<close>, when both paths it reads are empty); it then contributes one
  diagnostic and the parser goes on with the next section.  A section whose header matches
  gives one file with the paths read from the header.  So the number of files returned is the
  number of sections less the number of sections skipped with a diagnostic.
\<close>

theorem parsers_never_raise:
  "(\<exists>files console. parseUnifiedDiff d maxBytes = Inr (files, console))
   \<and> (\<exists>files console. parseFilesFromDiff d = Inr (files, console))
   \<and> parseUnifiedDiff [] maxBytes
       = Inr ([], [ConsoleLog ''parseUnifiedDiff: Empty diff input''])
   \<and> parseFilesFromDiff [] = Inr ([], [ConsoleLog ''parseFilesFromDiff: Empty diff input''])
   \<and> concat (matchSections d) = fromFirstHeader d
   \<and> (\<forall>s \<in> set (matchSections d).
        startsWith s ''diff --git'' \<and> \<not> includes_str (drop 10 s) ''diff --git'')
   \<and> filesOf (parseUnifiedDiff d maxBytes)
       = concat (map (\<lambda>s. filesOf (parseSection maxBytes s)) (matchSections d))
   \<and> filesOf (parseFilesFromDiff d)
       = concat (map (\<lambda>s. filesOf (parseFileSection s)) (matchSections d))
   \<and> (reHeaderLine sec = None \<and> reHeaderLoose sec = None \<longrightarrow>
        parseSection maxBytes sec
          = Inr ([], [ConsoleWarn ''Could not parse file names from diff:'']))
   \<and> (filesOf (parseSection maxBytes sec) = [])
       = (reHeaderLine sec = None \<and> reHeaderLoose sec = None)
   \<and> (reHeaderLine sec = Some (old, new)
        \<or> reHeaderLine sec = None \<and> reHeaderLoose sec = Some (old, new) \<longrightarrow>
        map (\<lambda>f. (oldPath f, filePath f)) (filesOf (parseSection maxBytes sec)) = [(old, new)])
   \<and> (parseFileNameFromDiff sec = None \<longrightarrow>
        parseFileSection sec
          = Inr ([], [ConsoleWarn ''Could not parse file names from diff block:'']))
   \<and> (filesOf (parseFileSection sec) = [])
       = (parseFileNameFromDiff sec = None \<or> parseFileNameFromDiff sec = Some ([], []))
   \<and> (parseFileNameFromDiff sec = Some (old, new) \<longrightarrow>
        map (\<lambda>f. (oldPath f, filePath f)) (filesOf (parseFileSection sec))
          = (if new \<noteq> [] then [(old, new)] else if old \<noteq> [] then [(old, old)] else []))
   \<and> length (filesOf (parseUnifiedDiff d maxBytes))
       + countLine (ConsoleWarn ''Could not parse file names from diff:'')
           (consoleOf (parseUnifiedDiff d maxBytes))
       = length (matchSections d)
   \<and> length (filesOf (parseFilesFromDiff d))
       + countLine (ConsoleWarn ''Could not parse file names from diff block:'')
           (consoleOf (parseFilesFromDiff d))
       + countLine (ConsoleError ''parseFilesFromDiff: Both old and new paths are empty for diff:'')
           (consoleOf (parseFilesFromDiff d))
       = length (matchSections d)"
proof -
  note total = parseUnifiedDiff_total [of d maxBytes] parseFilesFromDiff_total [of d]
  note empty = parsers_empty(1) [of maxBytes] parsers_empty(2)
  note sections = matchSections_concat [of d] matchSections_sections [of _ d]
  note files = parseUnifiedDiff_files [of d maxBytes] parseFilesFromDiff_files [of d]
  note one = parseSection_unmatched [of sec maxBytes] parseSection_files [of maxBytes sec]
    parseSection_matched [of sec old new maxBytes]
  note other = parseFileSection_unmatched [of sec] parseFileSection_files [of sec]
    parseFileSection_matched [of sec old new]
  note counts = parseUnifiedDiff_count [of d maxBytes] parseFilesFromDiff_count [of d]
  show ?thesis
    by (intro conjI ballI impI total empty sections files counts)
       (use one other in blast)+
qed


lemmas parser_defs = parseUnifiedDiff_def parseFilesFromDiff_def parseSection_def
  parseFileSection_def fileMatchesOf_def forOf_def group1_def group2_def bindE_def
  reHeaderLine_def reHeaderLoose_def rePlain_def reQuoted_def reMixed_def reBare_def
  reFallback_def parseFileNameFromDiff_def normalizeFilePath_def stripQuotes_def isQuote_def
  lit_def alt_def optLit_def greedyPlus_def greedyPlusC_def lazyPlusC_def endOfInput_def
  endOfLine_def dot_def isLineTerminator_def changeTypeOf_def trim_def isSpace_def Let_def
  filesOf_def consoleOf_def countLine_def threeSections_def binarySection_def

theorem parsers_never_raise_witness:
  "reHeaderLine (''diff --git-junk'' @ [NL]) = None
   \<and> reHeaderLoose (''diff --git-junk'' @ [NL]) = None
   \<and> parseFileNameFromDiff (''diff --git-junk'' @ [NL]) = None
   \<and> parseSection 1000 (''diff --git-junk'' @ [NL])
       = Inr ([], [ConsoleWarn ''Could not parse file names from diff:''])
   \<and> parseFileSection (''diff --git-junk'' @ [NL])
       = Inr ([], [ConsoleWarn ''Could not parse file names from diff block:''])
   \<and> matchSections threeSections
       = [''diff --git a/x b/x'' @ [NL] @ ''@@ -1 +1 @@'' @ [NL] @ ''-a'' @ [NL] @ ''+b'' @ [NL],
          ''diff --git-junk'' @ [NL],
          ''diff --git a/y b/y'' @ [NL] @ ''@@ -1 +1 @@'' @ [NL] @ ''-c'' @ [NL] @ ''+d'' @ [NL]]
   \<and> map filePath (filesOf (parseUnifiedDiff threeSections 1000)) = [''x'', ''y'']
   \<and> map filePath (filesOf (parseFilesFromDiff threeSections)) = [''x'', ''y'']
   \<and> countLine (ConsoleWarn ''Could not parse file names from diff:'')
         (consoleOf (parseUnifiedDiff threeSections 1000)) = 1
   \<and> countLine (ConsoleWarn ''Could not parse file names from diff block:'')
         (consoleOf (parseFilesFromDiff threeSections)) = 1
   \<and> reHeaderLine (''diff --git a/x b/y'' @ [CR, NL]) = None
   \<and> reHeaderLoose (''diff --git a/x b/y'' @ [CR, NL]) = Some (''x'', ''y'')
   \<and> parseFileNameFromDiff (''diff --git a/x b/y'' @ [CR, NL]) = Some (''x'', ''y'')
   \<and> map (\<lambda>f. (oldPath f, filePath f)) (filesOf (parseSection 1000 (''diff --git a/x b/y'' @ [CR, NL])))
       = [(''x'', ''y'')]
   \<and> map (\<lambda>f. (oldPath f, filePath f)) (filesOf (parseFileSection (''diff --git a/x b/y'' @ [CR, NL])))
       = [(''x'', ''y'')]
   \<and> parseFileNameFromDiff (''diff --git'' @ [CHR 0xA0] @ ''x'' @ [CHR 0xA0] @ ''y'')
       = Some (''x'', ''y'')"
proof -
  let ?junk = "''diff --git-junk'' @ [NL]"
  let ?crlf = "''diff --git a/x b/y'' @ [CR, NL]"
  have junk: "reHeaderLine ?junk = None" "reHeaderLoose ?junk = None"
    "parseFileNameFromDiff ?junk = None"
    by (simp_all add: parser_defs)
  have crlf: "reHeaderLine ?crlf = None" "reHeaderLoose ?crlf = Some (''x'', ''y'')"
    "parseFileNameFromDiff ?crlf = Some (''x'', ''y'')"
    by (simp_all add: parser_defs)
  have sections: "matchSections threeSections
       = [''diff --git a/x b/x'' @ [NL] @ ''@@ -1 +1 @@'' @ [NL] @ ''-a'' @ [NL] @ ''+b'' @ [NL],
          ''diff --git-junk'' @ [NL],
          ''diff --git a/y b/y'' @ [NL] @ ''@@ -1 +1 @@'' @ [NL] @ ''-c'' @ [NL] @ ''+d'' @ [NL]]"
    by (simp add: threeSections_def)
  have files: "map filePath (filesOf (parseUnifiedDiff threeSections 1000)) = [''x'', ''y'']"
    "map filePath (filesOf (parseFilesFromDiff threeSections)) = [''x'', ''y'']"
    by (simp_all add: parser_defs)
  have lens: "length (filesOf (parseUnifiedDiff threeSections 1000)) = 2"
    "length (filesOf (parseFilesFromDiff threeSections)) = 2"
    using files [THEN arg_cong, of length] by simp_all
  have noerr: "countLine (ConsoleError ''parseFilesFromDiff: Both old and new paths are empty for diff:'')
           (consoleOf (parseFilesFromDiff threeSections)) = 0"
    by (simp add: parser_defs)
  have nbsp: "parseFileNameFromDiff (''diff --git'' @ [CHR 0xA0] @ ''x'' @ [CHR 0xA0] @ ''y'')
       = Some (''x'', ''y'')"
    by (simp add: parser_defs)
  show ?thesis
    using parsers_never_raise [of threeSections 1000 ?junk "[]" "[]"]
      parsers_never_raise [of ?crlf 1000 ?crlf "''x''" "''y''"]
      junk crlf sections files lens noerr nbsp
    by simp
qed

text \<open>
  C5. For every raw diff, every file record that a parser returns with \<open>isBinary\<close> set
  has zero additions and zero deletions; \<open>parseUnifiedDiff\<close> also leaves both sides of
  its content empty, the lines of a binary section not being scanned.
\<close>

theorem binary_sections_count_nothing:
  "(\<forall>f \<in> set (filesOf (parseUnifiedDiff d maxBytes)).
      isBinary f \<longrightarrow> fileAdditions f = 0 \<and> fileDeletions f = 0
                   \<and> oldValue f = [] \<and> newValue f = [])
   \<and> (\<forall>f \<in> set (filesOf (parseFilesFromDiff d)).
      isBinary f \<longrightarrow> fileAdditions f = 0 \<and> fileDeletions f = 0)"
proof (intro conjI ballI impI)
  fix f assume f: "f \<in> set (filesOf (parseUnifiedDiff d maxBytes))" and b: "isBinary f"
  from f obtain sec where m: "f \<in> set (filesOf (parseSection maxBytes sec))"
    unfolding parseUnifiedDiff_files by auto
  obtain fs cs where q: "parseSection maxBytes sec = Inr (fs, cs)"
    using parseSection_total by blast
  have "f \<in> set fs" using m by (simp add: q filesOf_def)
  then have r: "fileAdditions f = 0 \<and> fileDeletions f = 0 \<and> oldValue f = [] \<and> newValue f = []"
    using parseSection_shape(2) [OF q] b by blast
  from r show "fileAdditions f = 0" by simp
  from r show "fileDeletions f = 0" by simp
  from r show "oldValue f = []" by simp
  from r show "newValue f = []" by simp
next
  fix f assume f: "f \<in> set (filesOf (parseFilesFromDiff d))" and b: "isBinary f"
  from f obtain sec where m: "f \<in> set (filesOf (parseFileSection sec))"
    unfolding parseFilesFromDiff_files by auto
  obtain fs cs where q: "parseFileSection sec = Inr (fs, cs)"
    using parseFileSection_total by blast
  have "f \<in> set fs" using m by (simp add: q filesOf_def)
  then have r: "fileAdditions f = 0 \<and> fileDeletions f = 0"
    using parseFileSection_shape(2) [OF q] b by blast
  from r show "fileAdditions f = 0" by simp
  from r show "fileDeletions f = 0" by simp
qed

theorem binary_sections_count_nothing_witness:
  "filesOf (parseUnifiedDiff binarySection 1000)
     = [\<lparr> filePath = ''i.png'', oldPath = ''i.png'', changeType = Modified,
          fileAdditions = 0, fileDeletions = 0, isBinary = True,
          oldValue = [], newValue = [], tooLarge = False, approxSize = 73 \<rparr>]
   \<and> filesOf (parseFilesFromDiff binarySection)
     = [\<lparr> filePath = ''i.png'', oldPath = ''i.png'', changeType = Modified,
          fileAdditions = 0, fileDeletions = 0, isBinary = True \<rparr>]"
  using binary_sections_count_nothing [of binarySection 1000]
  by (simp add: parser_defs)

end
